theory Spec2Isabelle
  imports Main "HOL-Library.Multiset"
begin

section \<open>Exceptions\<close>

text \<open>
  The header declares two exception objects, \<open>PQNotFoundEx\<close> and \<open>PQEmptyEx\<close>. Any other
  exception comes from a comparison or a copy of a key or a value, or from an allocation
  (of an element, of a node of an index, of an index). It is \<open>ElementEx\<close> here. An
  exception that would leave a function declared \<open>noexcept\<close> ends the program in
  \<open>std::terminate\<close>: that end is \<open>Terminated\<close>, and the state given with it is the state
  at that moment. Dereferencing a null index pointer, dereferencing or erasing a
  past-the-end iterator has no defined behaviour in C++; the model makes each such place
  a result of its own, \<open>UndefinedBehaviour\<close>, so that a theorem giving the result of an
  operation also says that no such place is reached.
\<close>

datatype error = PQNotFoundEx | PQEmptyEx | ElementEx | UndefinedBehaviour | Terminated

text \<open>
  Which element operation throws is not decided by the queue. A run of an operation is
  given a fault: \<open>None\<close> when no element operation throws, \<open>Some n\<close> when the first
  \<open>n\<close> steps that may throw succeed and the next one throws. Every step of the source
  that calls into the element types or allocates is one \<open>attempt\<close>; all steps after a
  throw are no-throw steps (erase by iterator, swap), so the position of the first throw
  describes the whole run.
\<close>

type_synonym fault = "nat option"

fun attempt :: "fault \<Rightarrow> error + fault" where
  "attempt None = Inr None"
| "attempt (Some 0) = Inl ElementEx"
| "attempt (Some (Suc n)) = Inr (Some n)"

section \<open>Comparators\<close>

text \<open>
  A \<open>key_value_pair\<close> is a pair of shared pointers to an immutable key and an immutable
  value; the model holds the key and the value themselves. The key type and the value
  type bring \<open>==\<close> and \<open><\<close>; they are the equality and the order of a linear order.
\<close>

type_synonym ('k, 'v) key_value_pair = "'k \<times> 'v"

definition CompByFst :: "('k::linorder, 'v::linorder) key_value_pair \<Rightarrow> ('k, 'v) key_value_pair \<Rightarrow> bool" where
  "CompByFst a b = (if \<not> (fst a = fst b) then fst a < fst b else snd a < snd b)"

definition CompBySnd :: "('k::linorder, 'v::linorder) key_value_pair \<Rightarrow> ('k, 'v) key_value_pair \<Rightarrow> bool" where
  "CompBySnd a b = (if \<not> (snd a = snd b) then snd a < snd b else fst a < fst b)"

section \<open>The ordered multi-container\<close>

text \<open>
  A \<open>std::multiset\<close> with comparator \<open>cmp\<close> is the list of its elements in iteration
  order. An iterator is the position of its element, \<open>end()\<close> the length of the list.
  \<open>insert\<close> of one element puts it at the upper bound of its equivalents and returns
  the iterator to it; \<open>lower_bound\<close> is the first position whose element is not less
  than the argument; \<open>find\<close> is the lower bound when the argument is not less than the
  element there, \<open>end()\<close> otherwise; \<open>erase\<close> removes the element at a position.
  A call of \<open>find\<close>, of \<open>lower_bound\<close> or of the insert of one element runs the
  comparator, and the insert allocates: each is one step that may throw, and the
  container is as before when it does. \<open>erase\<close> by iterator does not throw. The
  operations below call \<open>erase\<close> with a position inside the list only; the other case
  is \<open>UndefinedBehaviour\<close> there.
\<close>

fun ms_insert :: "('a \<Rightarrow> 'a \<Rightarrow> bool) \<Rightarrow> 'a \<Rightarrow> 'a list \<Rightarrow> 'a list \<times> nat" where
  "ms_insert cmp x [] = ([x], 0)"
| "ms_insert cmp x (y # ys) =
     (if cmp x y then (x # y # ys, 0)
      else (y # fst (ms_insert cmp x ys), Suc (snd (ms_insert cmp x ys))))"

fun ms_lower_bound :: "('a \<Rightarrow> 'a \<Rightarrow> bool) \<Rightarrow> 'a \<Rightarrow> 'a list \<Rightarrow> nat" where
  "ms_lower_bound cmp x [] = 0"
| "ms_lower_bound cmp x (y # ys) = (if cmp y x then Suc (ms_lower_bound cmp x ys) else 0)"

definition ms_find :: "('a \<Rightarrow> 'a \<Rightarrow> bool) \<Rightarrow> 'a \<Rightarrow> 'a list \<Rightarrow> nat" where
  "ms_find cmp x xs =
     (let j = ms_lower_bound cmp x xs
      in if j = length xs \<or> cmp x (xs ! j) then length xs else j)"

definition ms_erase :: "nat \<Rightarrow> 'a list \<Rightarrow> 'a list" where
  "ms_erase i xs = take i xs @ drop (Suc i) xs"

text \<open>
  The range insert has the basic guarantee only: it inserts element after element, and
  a throw leaves the elements inserted so far in the container.
\<close>

fun range_insert :: "('a \<Rightarrow> 'a \<Rightarrow> bool) \<Rightarrow> 'a list \<Rightarrow> fault \<Rightarrow> 'a list \<Rightarrow> (error + fault) \<times> 'a list" where
  "range_insert cmp [] f xs = (Inr f, xs)"
| "range_insert cmp (y # ys) f xs =
     (case attempt f of
        Inl e \<Rightarrow> (Inl e, xs)
      | Inr f1 \<Rightarrow> range_insert cmp ys f1 (fst (ms_insert cmp y xs)))"

section \<open>The queue\<close>

text \<open>
  The two \<open>unique_ptr\<close> members are \<open>None\<close> when null. \<open>inserted_K\<close> and \<open>inserted_V\<close>
  are the iterators that \<open>insert\<close> leaves behind for \<open>changeValue\<close>; no constructor
  sets them and \<open>swap\<close> does not exchange them.
\<close>

record ('k, 'v) PriorityQueue =
  pairs_by_K :: "('k, 'v) key_value_pair list option"
  pairs_by_V :: "('k, 'v) key_value_pair list option"
  inserted_K :: nat
  inserted_V :: nat

text \<open>
  The default constructor allocates two empty indexes with \<open>new\<close>; \<open>default_ctor\<close> is the
  queue it makes when both allocations succeed, \<open>default_construct\<close> the constructor with
  its two steps that may throw.
\<close>

definition default_ctor :: "('k, 'v) PriorityQueue" where
  "default_ctor = \<lparr>pairs_by_K = Some [], pairs_by_V = Some [], inserted_K = 0, inserted_V = 0\<rparr>"

definition default_construct :: "fault \<Rightarrow> error + fault \<times> ('k, 'v) PriorityQueue" where
  "default_construct f =
     (case attempt f of Inl e \<Rightarrow> Inl e | Inr f1 \<Rightarrow>
     (case attempt f1 of Inl e \<Rightarrow> Inl e | Inr f2 \<Rightarrow> Inr (f2, default_ctor)))"

definition isValid :: "('k, 'v) PriorityQueue \<Rightarrow> bool" where
  "isValid q = (pairs_by_K q \<noteq> None \<and> pairs_by_V q \<noteq> None)"

text \<open>
  \<open>size\<close> asserts that both indexes have the same number of elements before it returns
  the size of the key index. The assertion is a debugging aid and not a branch here; that
  it holds is part of the invariant \<open>pq_inv\<close> below.
\<close>

definition size_pq :: "('k, 'v) PriorityQueue \<Rightarrow> nat" where
  "size_pq q = (if \<not> isValid q then 0 else length (the (pairs_by_K q)))"

definition empty_pq :: "('k, 'v) PriorityQueue \<Rightarrow> bool" where
  "empty_pq q = (size_pq q = 0)"

text \<open>
  The copy constructor allocates a copy of each index. The copies of the pairs copy
  shared pointers only.
\<close>

definition copy_ctor :: "fault \<Rightarrow> ('k, 'v) PriorityQueue \<Rightarrow> error + fault \<times> ('k, 'v) PriorityQueue" where
  "copy_ctor f queue =
     (case (pairs_by_K queue, pairs_by_V queue) of
        (Some ks, Some vs) \<Rightarrow>
          (case attempt f of Inl e \<Rightarrow> Inl e | Inr f1 \<Rightarrow>
          (case attempt f1 of Inl e \<Rightarrow> Inl e | Inr f2 \<Rightarrow>
             Inr (f2, \<lparr>pairs_by_K = Some ks, pairs_by_V = Some vs, inserted_K = 0, inserted_V = 0\<rparr>)))
      | _ \<Rightarrow> Inl UndefinedBehaviour)"

subsection \<open>insert\<close>

definition insert_pq :: "fault \<Rightarrow> 'k::linorder \<Rightarrow> 'v::linorder \<Rightarrow> ('k, 'v) PriorityQueue
    \<Rightarrow> (error + fault) \<times> ('k, 'v) PriorityQueue" where
  "insert_pq f key val q =
     (case (pairs_by_K q, pairs_by_V q) of
        (Some ks, Some vs) \<Rightarrow>
          (case attempt f of Inl e \<Rightarrow> (Inl e, q) | Inr f1 \<Rightarrow>
          (case attempt f1 of Inl e \<Rightarrow> (Inl e, q) | Inr f2 \<Rightarrow>
          (case attempt f2 of Inl e \<Rightarrow> (Inl e, q) | Inr f3 \<Rightarrow>
             let to_find = (key, val);
                 pair_iterator = ms_find CompByFst to_find ks
             in if pair_iterator \<noteq> length ks then
                  (case attempt f3 of Inl e \<Rightarrow> (Inl e, q) | Inr f4 \<Rightarrow>
                     let found = ks ! pair_iterator;
                         ks1 = fst (ms_insert CompByFst found ks);
                         q1 = q\<lparr>pairs_by_K := Some ks1,
                                inserted_K := snd (ms_insert CompByFst found ks)\<rparr>
                     in (case attempt f4 of
                           Inl e \<Rightarrow> (Inl e, q1\<lparr>pairs_by_K := Some (ms_erase (inserted_K q1) ks1)\<rparr>)
                         | Inr f5 \<Rightarrow>
                             (Inr f5, q1\<lparr>pairs_by_V := Some (fst (ms_insert CompBySnd found vs)),
                                         inserted_V := snd (ms_insert CompBySnd found vs)\<rparr>)))
                else
                  (case attempt f3 of Inl e \<Rightarrow> (Inl e, q) | Inr f4 \<Rightarrow>
                     let ks1 = fst (ms_insert CompByFst to_find ks);
                         q1 = q\<lparr>pairs_by_K := Some ks1,
                                inserted_K := snd (ms_insert CompByFst to_find ks)\<rparr>
                     in (case attempt f4 of
                           Inl e \<Rightarrow> (Inl e, q1\<lparr>pairs_by_K := Some (ms_erase (inserted_K q1) ks1)\<rparr>)
                         | Inr f5 \<Rightarrow>
                             (Inr f5, q1\<lparr>pairs_by_V := Some (fst (ms_insert CompBySnd to_find vs)),
                                         inserted_V := snd (ms_insert CompBySnd to_find vs)\<rparr>))))))
      | _ \<Rightarrow> (Inl UndefinedBehaviour, q))"

subsection \<open>The accessors\<close>

text \<open>
  The four accessors are \<open>const\<close> and return a reference into the value index: they are
  functions of the queue with no successor state, and they copy nothing.
\<close>

definition minValue :: "('k, 'v) PriorityQueue \<Rightarrow> error + 'v" where
  "minValue q =
     (if empty_pq q then Inl PQEmptyEx
      else case pairs_by_V q of Some (x # xs) \<Rightarrow> Inr (snd x) | _ \<Rightarrow> Inl UndefinedBehaviour)"

definition maxValue :: "('k, 'v) PriorityQueue \<Rightarrow> error + 'v" where
  "maxValue q =
     (if empty_pq q then Inl PQEmptyEx
      else case pairs_by_V q of Some (x # xs) \<Rightarrow> Inr (snd (last (x # xs))) | _ \<Rightarrow> Inl UndefinedBehaviour)"

definition minKey :: "('k, 'v) PriorityQueue \<Rightarrow> error + 'k" where
  "minKey q =
     (if empty_pq q then Inl PQEmptyEx
      else case pairs_by_V q of Some (x # xs) \<Rightarrow> Inr (fst x) | _ \<Rightarrow> Inl UndefinedBehaviour)"

definition maxKey :: "('k, 'v) PriorityQueue \<Rightarrow> error + 'k" where
  "maxKey q =
     (if empty_pq q then Inl PQEmptyEx
      else case pairs_by_V q of Some (x # xs) \<Rightarrow> Inr (fst (last (x # xs))) | _ \<Rightarrow> Inl UndefinedBehaviour)"

subsection \<open>deleteMin and deleteMax\<close>

definition deleteMin :: "fault \<Rightarrow> ('k::linorder, 'v::linorder) PriorityQueue
    \<Rightarrow> (error + fault) \<times> ('k, 'v) PriorityQueue" where
  "deleteMin f q =
     (if empty_pq q then (Inr f, q)
      else case (pairs_by_K q, pairs_by_V q) of
        (Some ks, Some (x # xs)) \<Rightarrow>
          (case attempt f of Inl e \<Rightarrow> (Inl e, q) | Inr f1 \<Rightarrow>
             let to_delete1 = 0;
                 to_delete2 = ms_find CompByFst ((x # xs) ! to_delete1) ks
             in if to_delete2 = length ks then (Inl UndefinedBehaviour, q)
                else (Inr f1, q\<lparr>pairs_by_V := Some (ms_erase to_delete1 (x # xs)),
                                 pairs_by_K := Some (ms_erase to_delete2 ks)\<rparr>))
      | _ \<Rightarrow> (Inl UndefinedBehaviour, q))"

definition deleteMax :: "fault \<Rightarrow> ('k::linorder, 'v::linorder) PriorityQueue
    \<Rightarrow> (error + fault) \<times> ('k, 'v) PriorityQueue" where
  "deleteMax f q =
     (if empty_pq q then (Inr f, q)
      else case (pairs_by_K q, pairs_by_V q) of
        (Some ks, Some (x # xs)) \<Rightarrow>
          (case attempt f of Inl e \<Rightarrow> (Inl e, q) | Inr f1 \<Rightarrow>
             let to_delete1 = length (x # xs) - 1;
                 to_delete2 = ms_find CompByFst ((x # xs) ! to_delete1) ks
             in if to_delete2 = length ks then (Inl UndefinedBehaviour, q)
                else (Inr f1, q\<lparr>pairs_by_V := Some (ms_erase to_delete1 (x # xs)),
                                 pairs_by_K := Some (ms_erase to_delete2 ks)\<rparr>))
      | _ \<Rightarrow> (Inl UndefinedBehaviour, q))"

subsection \<open>changeValue\<close>

text \<open>
  The search pair is built from a copy of the key and a copy of \<open>minValue()\<close>, which
  throws on an empty queue. The two copies are arguments of one call, and C++ leaves the
  order of their evaluation to the compiler: \<open>KeyFirst\<close> copies the key and then calls
  \<open>minValue()\<close> and copies its result, \<open>ValueFirst\<close> calls \<open>minValue()\<close> and copies its
  result and then copies the key. The order is an argument of the model, and every
  theorem on \<open>changeValue\<close> holds for both. \<open>make_to_find\<close> gives the value of the search
  pair and the fault that is left.
\<close>

datatype argument_order = KeyFirst | ValueFirst

definition make_to_find :: "argument_order \<Rightarrow> fault \<Rightarrow> ('k, 'v) PriorityQueue \<Rightarrow> error + 'v \<times> fault" where
  "make_to_find ord f q =
     (case ord of
        KeyFirst \<Rightarrow>
          (case attempt f of Inl e \<Rightarrow> Inl e | Inr f1 \<Rightarrow>
          (case minValue q of Inl e \<Rightarrow> Inl e | Inr mv \<Rightarrow>
          (case attempt f1 of Inl e \<Rightarrow> Inl e | Inr f2 \<Rightarrow> Inr (mv, f2))))
      | ValueFirst \<Rightarrow>
          (case minValue q of Inl e \<Rightarrow> Inl e | Inr mv \<Rightarrow>
          (case attempt f of Inl e \<Rightarrow> Inl e | Inr f1 \<Rightarrow>
          (case attempt f1 of Inl e \<Rightarrow> Inl e | Inr f2 \<Rightarrow> Inr (mv, f2)))))"

text \<open>
  After the insert the old pair is looked up in both indexes; a throw there erases what
  \<open>insert\<close> put in, through the iterators it left in \<open>inserted_K\<close> and \<open>inserted_V\<close>.
\<close>

definition changeValue :: "argument_order \<Rightarrow> fault \<Rightarrow> 'k::linorder \<Rightarrow> 'v::linorder
    \<Rightarrow> ('k, 'v) PriorityQueue \<Rightarrow> (error + fault) \<times> ('k, 'v) PriorityQueue" where
  "changeValue ord f key val q =
     (case make_to_find ord f q of Inl e \<Rightarrow> (Inl e, q) | Inr (mv, f2) \<Rightarrow>
     (case pairs_by_K q of None \<Rightarrow> (Inl UndefinedBehaviour, q) | Some ks \<Rightarrow>
     (case attempt f2 of Inl e \<Rightarrow> (Inl e, q) | Inr f3 \<Rightarrow>
        let to_find = (key, mv);
            pair_iterator = ms_lower_bound CompByFst to_find ks
        in if pair_iterator = length ks then (Inl PQNotFoundEx, q)
           else
     (case attempt f3 of Inl e \<Rightarrow> (Inl e, q) | Inr f4 \<Rightarrow>
        if \<not> (fst (ks ! pair_iterator) = key) then (Inl PQNotFoundEx, q)
        else
          let pair_to_delete = ks ! pair_iterator
          in (case insert_pq f4 key val q of
                (Inl e, q1) \<Rightarrow> (Inl e, q1)
              | (Inr f5, q1) \<Rightarrow>
                  (case (pairs_by_K q1, pairs_by_V q1) of
                     (Some ks1, Some vs1) \<Rightarrow>
                       let rollback = q1\<lparr>pairs_by_K := Some (ms_erase (inserted_K q1) ks1),
                                          pairs_by_V := Some (ms_erase (inserted_V q1) vs1)\<rparr>
                       in (case attempt f5 of Inl e \<Rightarrow> (Inl e, rollback) | Inr f6 \<Rightarrow>
                          (case attempt f6 of Inl e \<Rightarrow> (Inl e, rollback) | Inr f7 \<Rightarrow>
                             let to_delete1 = ms_find CompByFst pair_to_delete ks1;
                                 to_delete2 = ms_find CompBySnd pair_to_delete vs1
                             in if to_delete1 = length ks1 \<or> to_delete2 = length vs1
                                then (Inl UndefinedBehaviour, q1)
                                else (Inr f7, q1\<lparr>pairs_by_K := Some (ms_erase to_delete1 ks1),
                                                 pairs_by_V := Some (ms_erase to_delete2 vs1)\<rparr>)))
                   | _ \<Rightarrow> (Inl UndefinedBehaviour, q1)))))))"

subsection \<open>swap, clear and merge\<close>

text \<open>
  \<open>swap\<close> and \<open>merge\<close> compare the address of their argument with \<open>this\<close>. Queues live
  in a store, a function from addresses to queue objects, and the two operations take
  the two addresses.
\<close>

type_synonym ('k, 'v) store = "nat \<Rightarrow> ('k, 'v) PriorityQueue"

definition swap_pq :: "nat \<Rightarrow> nat \<Rightarrow> ('k, 'v) store \<Rightarrow> ('k, 'v) store" where
  "swap_pq this queue h =
     (if this \<noteq> queue then
        h(this := (h this)\<lparr>pairs_by_K := pairs_by_K (h queue), pairs_by_V := pairs_by_V (h queue)\<rparr>,
          queue := (h queue)\<lparr>pairs_by_K := pairs_by_K (h this), pairs_by_V := pairs_by_V (h this)\<rparr>)
      else h)"

text \<open>
  \<open>clear\<close> default-constructs a local queue and swaps with it; the local queue is
  destroyed on return. \<open>clear\<close> is declared \<open>noexcept\<close>, so a throw of one of the two
  allocations of the constructor ends the program, with the queue as it was.
\<close>

definition clear :: "fault \<Rightarrow> ('k, 'v) PriorityQueue \<Rightarrow> (error + fault) \<times> ('k, 'v) PriorityQueue" where
  "clear f q =
     (case default_construct f of
        Inl e \<Rightarrow> (Inl Terminated, q)
      | Inr (f1, tmp) \<Rightarrow> (Inr f1, q\<lparr>pairs_by_K := pairs_by_K tmp, pairs_by_V := pairs_by_V tmp\<rparr>))"

text \<open>
  Copy assignment builds a copy and swaps it in; move assignment takes over both index
  pointers and leaves the argument with two null pointers. A self move assignment of a
  \<open>unique_ptr\<close> leaves it as it was, which the order of the two updates gives.
\<close>

definition copy_assign :: "fault \<Rightarrow> nat \<Rightarrow> nat \<Rightarrow> ('k, 'v) store \<Rightarrow> (error + fault) \<times> ('k, 'v) store" where
  "copy_assign f this queue h =
     (if this \<noteq> queue then
        (case copy_ctor f (h queue) of
           Inl e \<Rightarrow> (Inl e, h)
         | Inr (f1, temp) \<Rightarrow>
             (Inr f1, h(this := (h this)\<lparr>pairs_by_K := pairs_by_K temp, pairs_by_V := pairs_by_V temp\<rparr>)))
      else (Inr f, h))"

definition move_assign :: "nat \<Rightarrow> nat \<Rightarrow> ('k, 'v) store \<Rightarrow> ('k, 'v) store" where
  "move_assign this queue h =
     h(queue := (h queue)\<lparr>pairs_by_K := None, pairs_by_V := None\<rparr>,
       this := (h this)\<lparr>pairs_by_K := pairs_by_K (h queue), pairs_by_V := pairs_by_V (h queue)\<rparr>)"

text \<open>
  \<open>merge\<close> copies \<open>*this\<close> into the local \<open>tmp\<close>, inserts both index ranges of the
  argument, and on a throw swaps \<open>tmp\<close> back in before it rethrows. After the \<open>try\<close>
  block it calls \<open>clear\<close> on the argument; what \<open>clear\<close> ends with is what \<open>merge\<close> ends
  with, \<open>*this\<close> holding the merged indexes.
\<close>

definition merge :: "fault \<Rightarrow> nat \<Rightarrow> nat \<Rightarrow> ('k::linorder, 'v::linorder) store
    \<Rightarrow> (error + fault) \<times> ('k, 'v) store" where
  "merge f this queue h =
     (if this \<noteq> queue then
        (case copy_ctor f (h this) of
           Inl e \<Rightarrow> (Inl e, h)
         | Inr (f1, tmp) \<Rightarrow>
             (case (pairs_by_K (h this), pairs_by_V (h this), pairs_by_K (h queue), pairs_by_V (h queue)) of
                (Some ks, Some vs, Some qks, Some qvs) \<Rightarrow>
                  (case range_insert CompByFst qks f1 ks of
                     (Inl e, ks1) \<Rightarrow>
                       (Inl e, h(this := (h this)\<lparr>pairs_by_K := pairs_by_K tmp, pairs_by_V := pairs_by_V tmp\<rparr>))
                   | (Inr f2, ks1) \<Rightarrow>
                       (case range_insert CompBySnd qvs f2 vs of
                          (Inl e, vs1) \<Rightarrow>
                            (Inl e, h(this := (h this)\<lparr>pairs_by_K := pairs_by_K tmp, pairs_by_V := pairs_by_V tmp\<rparr>))
                        | (Inr f3, vs1) \<Rightarrow>
                            (case clear f3 (h queue) of
                               (r, cleared_queue) \<Rightarrow>
                                 (r, h(this := (h this)\<lparr>pairs_by_K := Some ks1, pairs_by_V := Some vs1\<rparr>,
                                       queue := cleared_queue)))))
              | _ \<Rightarrow> (Inl UndefinedBehaviour, h)))
      else (Inr f, h))"

subsection \<open>operator==\<close>

fun eq_loop :: "fault \<Rightarrow> ('k, 'v) key_value_pair list \<Rightarrow> ('k, 'v) key_value_pair list \<Rightarrow> error + bool" where
  "eq_loop f [] ys = Inr True"
| "eq_loop f (x # xs) [] = Inl UndefinedBehaviour"
| "eq_loop f (x # xs) (y # ys) =
     (case attempt f of Inl e \<Rightarrow> Inl e | Inr f1 \<Rightarrow>
        if fst x = fst y then
          (case attempt f1 of Inl e \<Rightarrow> Inl e | Inr f2 \<Rightarrow>
             if snd x = snd y then eq_loop f2 xs ys else Inr False)
        else Inr False)"

definition operator_eq :: "fault \<Rightarrow> ('k, 'v) PriorityQueue \<Rightarrow> ('k, 'v) PriorityQueue \<Rightarrow> error + bool" where
  "operator_eq f lhs rhs =
     (if size_pq lhs = size_pq rhs then
        if size_pq lhs = 0 then Inr True
        else (case (pairs_by_K lhs, pairs_by_K rhs) of
                (Some ks, Some ks') \<Rightarrow> eq_loop f ks ks'
              | _ \<Rightarrow> Inl UndefinedBehaviour)
      else Inr False)"

section \<open>The invariant\<close>

text \<open>
  A list is ordered by a comparator when no element is less than an element before it.
  Both comparators of the queue are strict total orders on pairs.
\<close>

definition ordered :: "('a \<Rightarrow> 'a \<Rightarrow> bool) \<Rightarrow> 'a list \<Rightarrow> bool" where
  "ordered cmp xs = sorted_wrt (\<lambda>a b. \<not> cmp b a) xs"

definition strict_total :: "('a \<Rightarrow> 'a \<Rightarrow> bool) \<Rightarrow> bool" where
  "strict_total cmp \<longleftrightarrow>
     (\<forall>a. \<not> cmp a a) \<and> (\<forall>a b c. cmp a b \<longrightarrow> cmp b c \<longrightarrow> cmp a c) \<and> (\<forall>a b. a \<noteq> b \<longrightarrow> cmp a b \<or> cmp b a)"

text \<open>
  The invariant of a queue: both indexes are there, have the same number of elements
  (what \<open>size\<close> asserts), hold the same multiset of pairs, and each is ordered by its
  comparator.
\<close>

definition pq_inv :: "('k::linorder, 'v::linorder) PriorityQueue \<Rightarrow> bool" where
  "pq_inv q =
     (case (pairs_by_K q, pairs_by_V q) of
        (Some ks, Some vs) \<Rightarrow>
          length ks = length vs \<and> mset ks = mset vs \<and> ordered CompByFst ks \<and> ordered CompBySnd vs
      | _ \<Rightarrow> False)"

text \<open>
  \<open>pending f f'\<close>: a run that started with fault \<open>f\<close> and has \<open>f'\<close> left has not
  reached its throwing step.
\<close>

definition pending :: "fault \<Rightarrow> fault \<Rightarrow> bool" where
  "pending f f' = (case f of None \<Rightarrow> f' = None | Some n \<Rightarrow> (case f' of None \<Rightarrow> False | Some m \<Rightarrow> m \<le> n))"

section \<open>What the operations leave\<close>

text \<open>
  Closed forms of the queue that an operation leaves when it returns normally on a
  valid queue. The lemmas below prove from the definitions of the operations that they
  return these queues; the claims are stated on the operations themselves.
\<close>

definition inserted :: "'k::linorder \<Rightarrow> 'v::linorder \<Rightarrow> ('k, 'v) PriorityQueue \<Rightarrow> ('k, 'v) PriorityQueue" where
  "inserted key val q =
     q\<lparr>pairs_by_K := Some (fst (ms_insert CompByFst (key, val) (the (pairs_by_K q)))),
       inserted_K := snd (ms_insert CompByFst (key, val) (the (pairs_by_K q))),
       pairs_by_V := Some (fst (ms_insert CompBySnd (key, val) (the (pairs_by_V q)))),
       inserted_V := snd (ms_insert CompBySnd (key, val) (the (pairs_by_V q)))\<rparr>"

definition deletedMin :: "('k::linorder, 'v::linorder) PriorityQueue \<Rightarrow> ('k, 'v) PriorityQueue" where
  "deletedMin q =
     q\<lparr>pairs_by_V := Some (tl (the (pairs_by_V q))),
       pairs_by_K := Some (ms_erase (ms_find CompByFst (hd (the (pairs_by_V q))) (the (pairs_by_K q)))
                             (the (pairs_by_K q)))\<rparr>"

definition deletedMax :: "('k::linorder, 'v::linorder) PriorityQueue \<Rightarrow> ('k, 'v) PriorityQueue" where
  "deletedMax q =
     q\<lparr>pairs_by_V := Some (butlast (the (pairs_by_V q))),
       pairs_by_K := Some (ms_erase (ms_find CompByFst (last (the (pairs_by_V q))) (the (pairs_by_K q)))
                             (the (pairs_by_K q)))\<rparr>"

text \<open>
  The part of \<open>changeValue\<close> after the call of \<open>insert\<close>, the queue it leaves on normal
  return (\<open>erased\<close>) and on a throw (\<open>rolled_back\<close>), and the result of the whole
  operation (\<open>changed\<close>).
\<close>

definition finish_change :: "fault \<Rightarrow> ('k::linorder, 'v::linorder) key_value_pair \<Rightarrow> ('k, 'v) PriorityQueue
    \<Rightarrow> (error + fault) \<times> ('k, 'v) PriorityQueue" where
  "finish_change f5 pair_to_delete q1 =
     (case (pairs_by_K q1, pairs_by_V q1) of
        (Some ks1, Some vs1) \<Rightarrow>
          let rollback = q1\<lparr>pairs_by_K := Some (ms_erase (inserted_K q1) ks1),
                             pairs_by_V := Some (ms_erase (inserted_V q1) vs1)\<rparr>
          in (case attempt f5 of Inl e \<Rightarrow> (Inl e, rollback) | Inr f6 \<Rightarrow>
             (case attempt f6 of Inl e \<Rightarrow> (Inl e, rollback) | Inr f7 \<Rightarrow>
                let to_delete1 = ms_find CompByFst pair_to_delete ks1;
                    to_delete2 = ms_find CompBySnd pair_to_delete vs1
                in if to_delete1 = length ks1 \<or> to_delete2 = length vs1
                   then (Inl UndefinedBehaviour, q1)
                   else (Inr f7, q1\<lparr>pairs_by_K := Some (ms_erase to_delete1 ks1),
                                    pairs_by_V := Some (ms_erase to_delete2 vs1)\<rparr>)))
      | _ \<Rightarrow> (Inl UndefinedBehaviour, q1))"

definition erased :: "('k::linorder, 'v::linorder) key_value_pair \<Rightarrow> ('k, 'v) PriorityQueue \<Rightarrow> ('k, 'v) PriorityQueue" where
  "erased old q1 =
     q1\<lparr>pairs_by_K := Some (ms_erase (ms_find CompByFst old (the (pairs_by_K q1))) (the (pairs_by_K q1))),
        pairs_by_V := Some (ms_erase (ms_find CompBySnd old (the (pairs_by_V q1))) (the (pairs_by_V q1)))\<rparr>"

definition rolled_back :: "('k, 'v) PriorityQueue \<Rightarrow> ('k, 'v) PriorityQueue" where
  "rolled_back q1 =
     q1\<lparr>pairs_by_K := Some (ms_erase (inserted_K q1) (the (pairs_by_K q1))),
        pairs_by_V := Some (ms_erase (inserted_V q1) (the (pairs_by_V q1)))\<rparr>"

definition changed :: "'k::linorder \<Rightarrow> 'v::linorder \<Rightarrow> ('k, 'v) PriorityQueue \<Rightarrow> ('k, 'v) PriorityQueue" where
  "changed key val q =
     erased (the (pairs_by_K q) !
               ms_lower_bound CompByFst (key, snd (hd (the (pairs_by_V q)))) (the (pairs_by_K q)))
       (inserted key val q)"

text \<open>
  The range insert without a throw, the queue that \<open>clear\<close> leaves, and the store that
  \<open>merge\<close> leaves.
\<close>

definition cleared :: "('k, 'v) PriorityQueue \<Rightarrow> ('k, 'v) PriorityQueue" where
  "cleared q = q\<lparr>pairs_by_K := Some [], pairs_by_V := Some []\<rparr>"

definition range_inserted :: "('a \<Rightarrow> 'a \<Rightarrow> bool) \<Rightarrow> 'a list \<Rightarrow> 'a list \<Rightarrow> 'a list" where
  "range_inserted cmp ys xs = fold (\<lambda>y xs. fst (ms_insert cmp y xs)) ys xs"

definition merged :: "nat \<Rightarrow> nat \<Rightarrow> ('k::linorder, 'v::linorder) store \<Rightarrow> ('k, 'v) store" where
  "merged this queue h =
     h(this := (h this)\<lparr>pairs_by_K := Some (range_inserted CompByFst (the (pairs_by_K (h queue))) (the (pairs_by_K (h this)))),
                        pairs_by_V := Some (range_inserted CompBySnd (the (pairs_by_V (h queue))) (the (pairs_by_V (h this))))\<rparr>,
       queue := cleared (h queue))"

text \<open>
  The store at the moment \<open>clear\<close> ends the program inside \<open>merge\<close>: \<open>*this\<close> holds the
  merged indexes and the argument is as it was.
\<close>

definition merged_uncleared :: "nat \<Rightarrow> nat \<Rightarrow> ('k::linorder, 'v::linorder) store \<Rightarrow> ('k, 'v) store" where
  "merged_uncleared this queue h =
     h(this := (h this)\<lparr>pairs_by_K := Some (range_inserted CompByFst (the (pairs_by_K (h queue))) (the (pairs_by_K (h this)))),
                        pairs_by_V := Some (range_inserted CompBySnd (the (pairs_by_V (h queue))) (the (pairs_by_V (h this))))\<rparr>)"

section \<open>Observations and sequences of operations\<close>

text \<open>
  The two indexes as lists, empty for a queue without them, and the least value stored
  under a key.
\<close>

definition key_index :: "('k, 'v) PriorityQueue \<Rightarrow> ('k, 'v) key_value_pair list" where
  "key_index q = (case pairs_by_K q of Some ks \<Rightarrow> ks | None \<Rightarrow> [])"

definition value_index :: "('k, 'v) PriorityQueue \<Rightarrow> ('k, 'v) key_value_pair list" where
  "value_index q = (case pairs_by_V q of Some vs \<Rightarrow> vs | None \<Rightarrow> [])"

definition least_value_of :: "'k \<Rightarrow> ('k, 'v::linorder) key_value_pair list \<Rightarrow> 'v" where
  "least_value_of key ks = Min (set (map snd (filter (\<lambda>p. fst p = key) ks)))"

text \<open>
  A queue built by a sequence of \<open>insert\<close> calls, none of which throws, from a starting
  queue; the first error ends the sequence.
\<close>

fun insert_all :: "('k::linorder, 'v::linorder) key_value_pair list \<Rightarrow> ('k, 'v) PriorityQueue
    \<Rightarrow> error + ('k, 'v) PriorityQueue" where
  "insert_all [] q = Inr q"
| "insert_all (p # ps) q =
     (case insert_pq None (fst p) (snd p) q of
        (Inl e, q') \<Rightarrow> Inl e
      | (Inr f, q') \<Rightarrow> insert_all ps q')"

text \<open>Repeated \<open>deleteMin\<close> calls, none of which throws; the first error ends them.\<close>

fun deleteMin_times :: "nat \<Rightarrow> ('k::linorder, 'v::linorder) PriorityQueue \<Rightarrow> error + ('k, 'v) PriorityQueue" where
  "deleteMin_times 0 q = Inr q"
| "deleteMin_times (Suc n) q =
     (case deleteMin None q of
        (Inl e, q') \<Rightarrow> Inl e
      | (Inr f, q') \<Rightarrow> deleteMin_times n q')"

text \<open>
  Sequences of operations on one queue, none of which throws: \<open>insert\<close>, \<open>deleteMin\<close>,
  \<open>deleteMax\<close>, and being merged into another queue, that is being the argument of
  \<open>other.merge\<close> for a different queue object \<open>other\<close>. The first error ends the sequence.
\<close>

datatype ('k, 'v) operation =
  Insert 'k 'v | DeleteMin | DeleteMax | MergedInto "('k, 'v) PriorityQueue"

fun perform :: "('k::linorder, 'v::linorder) operation \<Rightarrow> ('k, 'v) PriorityQueue
    \<Rightarrow> error + ('k, 'v) PriorityQueue" where
  "perform (Insert key val) q =
     (case insert_pq None key val q of (Inl e, q') \<Rightarrow> Inl e | (Inr f, q') \<Rightarrow> Inr q')"
| "perform DeleteMin q =
     (case deleteMin None q of (Inl e, q') \<Rightarrow> Inl e | (Inr f, q') \<Rightarrow> Inr q')"
| "perform DeleteMax q =
     (case deleteMax None q of (Inl e, q') \<Rightarrow> Inl e | (Inr f, q') \<Rightarrow> Inr q')"
| "perform (MergedInto other) q =
     (case merge None 0 1 (\<lambda>a. if a = 0 then other else q) of
        (Inl e, h') \<Rightarrow> Inl e
      | (Inr f, h') \<Rightarrow> Inr (h' 1))"

fun run :: "('k::linorder, 'v::linorder) operation list \<Rightarrow> ('k, 'v) PriorityQueue
    \<Rightarrow> error + ('k, 'v) PriorityQueue" where
  "run [] q = Inr q"
| "run (x # xs) q = (case perform x q of Inl e \<Rightarrow> Inl e | Inr q' \<Rightarrow> run xs q')"

text \<open>
  The number of \<open>insert\<close> calls of a sequence, and the number of entries its deletions
  and merges take out: a deletion takes one entry out of a non-empty queue and none out
  of an empty one, a merge takes out all entries of its argument.
\<close>

fun inserts :: "('k, 'v) operation list \<Rightarrow> nat" where
  "inserts [] = 0"
| "inserts (Insert key val # xs) = Suc (inserts xs)"
| "inserts (x # xs) = inserts xs"

fun taken_out :: "('k, 'v) operation \<Rightarrow> ('k, 'v) PriorityQueue \<Rightarrow> nat" where
  "taken_out (Insert key val) q = 0"
| "taken_out DeleteMin q = (if empty_pq q then 0 else 1)"
| "taken_out DeleteMax q = (if empty_pq q then 0 else 1)"
| "taken_out (MergedInto other) q = size_pq q"

fun removals :: "('k::linorder, 'v::linorder) operation list \<Rightarrow> ('k, 'v) PriorityQueue \<Rightarrow> nat" where
  "removals [] q = 0"
| "removals (x # xs) q =
     (case perform x q of Inl e \<Rightarrow> 0 | Inr q' \<Rightarrow> taken_out x q + removals xs q')"

fun merge_target_ok :: "('k::linorder, 'v::linorder) operation \<Rightarrow> bool" where
  "merge_target_ok (MergedInto other) = pq_inv other"
| "merge_target_ok x = True"

section \<open>Example queues\<close>

text \<open>
  The queue after \<open>insert(1, 10)\<close>, \<open>insert(2, 5)\<close>, \<open>insert(1, 20)\<close>; a store with this
  queue at address 0 and a queue holding \<open>(3, 1)\<close> at every other address; the queue
  holding one pair; and a sequence of operations.
\<close>

definition example_queue :: "(nat, nat) PriorityQueue" where
  "example_queue = \<lparr>pairs_by_K = Some [(1, 10), (1, 20), (2, 5)],
                     pairs_by_V = Some [(2, 5), (1, 10), (1, 20)],
                     inserted_K = 1, inserted_V = 2\<rparr>"

definition example_store :: "(nat, nat) store" where
  "example_store a = (if a = 0 then example_queue
                      else \<lparr>pairs_by_K = Some [(3, 1)], pairs_by_V = Some [(3, 1)],
                            inserted_K = 0, inserted_V = 0\<rparr>)"

definition single_queue :: "nat \<Rightarrow> nat \<Rightarrow> (nat, nat) PriorityQueue" where
  "single_queue k v = \<lparr>pairs_by_K = Some [(k, v)], pairs_by_V = Some [(k, v)], inserted_K = 0, inserted_V = 0\<rparr>"

definition example_operations :: "(nat, nat) operation list" where
  "example_operations =
     [Insert 4 10, Insert 4 10, DeleteMin, Insert 2 5, DeleteMax, MergedInto (single_queue 4 10),
      DeleteMin, Insert 7 7]"

section \<open>Lemmas\<close>

subsection \<open>The ordered multi-container\<close>

lemma strict_total_CompByFst: "strict_total CompByFst"
  unfolding strict_total_def CompByFst_def by (auto simp: prod_eq_iff)

lemma strict_total_CompBySnd: "strict_total CompBySnd"
  unfolding strict_total_def CompBySnd_def by (auto simp: prod_eq_iff)

lemma strict_totalD_irrefl: "strict_total cmp \<Longrightarrow> \<not> cmp a a"
  by (simp add: strict_total_def)

lemma strict_totalD_trans: "strict_total cmp \<Longrightarrow> cmp a b \<Longrightarrow> cmp b c \<Longrightarrow> cmp a c"
  unfolding strict_total_def by blast

lemma strict_totalD_asym: "strict_total cmp \<Longrightarrow> cmp a b \<Longrightarrow> \<not> cmp b a"
  unfolding strict_total_def by blast

lemma strict_totalD_eq: "strict_total cmp \<Longrightarrow> \<not> cmp a b \<Longrightarrow> \<not> cmp b a \<Longrightarrow> a = b"
  unfolding strict_total_def by blast

lemma mset_ms_insert: "mset (fst (ms_insert cmp x xs)) = add_mset x (mset xs)"
  by (induction xs) auto

lemma set_ms_insert: "set (fst (ms_insert cmp x xs)) = insert x (set xs)"
  by (induction xs) auto

lemma length_ms_insert: "length (fst (ms_insert cmp x xs)) = Suc (length xs)"
  by (induction xs) auto

lemma ordered_ms_insert:
  assumes "strict_total cmp" and "ordered cmp xs"
  shows "ordered cmp (fst (ms_insert cmp x xs))"
  using assms(2)
proof (induction xs)
  case Nil
  then show ?case by (simp add: ordered_def)
next
  case (Cons y ys)
  show ?case
  proof (cases "cmp x y")
    case True
    have "\<not> cmp z x" if "z \<in> set ys" for z
    proof
      assume "cmp z x"
      then have "cmp z y" using True assms(1) strict_totalD_trans by metis
      moreover have "\<not> cmp z y" using Cons.prems that by (simp add: ordered_def)
      ultimately show False by simp
    qed
    moreover have "\<not> cmp y x" using True assms(1) strict_totalD_asym by metis
    ultimately show ?thesis using True Cons.prems by (simp add: ordered_def)
  next
    case False
    have "ordered cmp (fst (ms_insert cmp x ys))"
      using Cons by (simp add: ordered_def)
    then show ?thesis using False Cons.prems
      by (auto simp: ordered_def set_ms_insert)
  qed
qed

lemma snd_ms_insert_le: "snd (ms_insert cmp x xs) \<le> length xs"
  by (induction xs) auto

lemma nth_ms_insert: "fst (ms_insert cmp x xs) ! snd (ms_insert cmp x xs) = x"
  by (induction xs) auto

lemma ms_erase_Cons_Suc: "ms_erase (Suc i) (y # ys) = y # ms_erase i ys"
  by (simp add: ms_erase_def)

lemma ms_erase_0: "ms_erase 0 (y # ys) = ys"
  by (simp add: ms_erase_def)

lemma ms_erase_ms_insert: "ms_erase (snd (ms_insert cmp x xs)) (fst (ms_insert cmp x xs)) = xs"
  by (induction xs) (auto simp: ms_erase_Cons_Suc ms_erase_0)

lemma ms_lower_bound_le: "ms_lower_bound cmp x xs \<le> length xs"
  by (induction xs) auto

lemma ms_lower_bound_nth:
  "ms_lower_bound cmp x xs \<noteq> length xs \<Longrightarrow> \<not> cmp (xs ! ms_lower_bound cmp x xs) x"
  by (induction xs) auto

lemma ms_lower_bound_before:
  "i < ms_lower_bound cmp x xs \<Longrightarrow> cmp (xs ! i) x"
proof (induction xs arbitrary: i)
  case Nil
  then show ?case by simp
next
  case (Cons y ys)
  then show ?case by (cases i) (auto split: if_splits)
qed

lemma ms_find_le: "ms_find cmp x xs \<le> length xs"
  using ms_lower_bound_le [of cmp x xs] by (simp add: ms_find_def Let_def)

lemma ms_find_found:
  assumes "strict_total cmp" and "ms_find cmp x xs \<noteq> length xs"
  shows "xs ! ms_find cmp x xs = x"
proof -
  let ?j = "ms_lower_bound cmp x xs"
  from assms(2) have j: "?j \<noteq> length xs" "\<not> cmp x (xs ! ?j)" "ms_find cmp x xs = ?j"
    by (auto simp: ms_find_def Let_def split: if_splits)
  from ms_lower_bound_nth [OF j(1)] j(2) assms(1) have "xs ! ?j = x"
    using strict_totalD_eq by metis
  with j(3) show ?thesis by simp
qed

lemma ms_find_mem:
  assumes "strict_total cmp" and "ordered cmp xs" and "x \<in> set xs"
  shows "ms_find cmp x xs \<noteq> length xs"
proof -
  let ?j = "ms_lower_bound cmp x xs"
  from assms(3) obtain i where i: "i < length xs" "xs ! i = x"
    by (auto simp: in_set_conv_nth)
  have "\<not> i < ?j"
    using ms_lower_bound_before [of i cmp x xs] i(2) assms(1) strict_totalD_irrefl by metis
  then have le: "?j \<le> i" by simp
  then have lt: "?j < length xs" using i(1) by simp
  have "\<not> cmp x (xs ! ?j)"
  proof (cases "?j = i")
    case True
    then show ?thesis using i(2) assms(1) strict_totalD_irrefl by metis
  next
    case False
    then have "?j < i" using le by simp
    then have "\<not> cmp (xs ! i) (xs ! ?j)"
      using assms(2) i(1) by (simp add: ordered_def sorted_wrt_iff_nth_less)
    then show ?thesis using i(2) by simp
  qed
  then show ?thesis using lt by (simp add: ms_find_def Let_def)
qed

lemma mset_ms_erase: "i < length xs \<Longrightarrow> mset (ms_erase i xs) = mset xs - {#xs ! i#}"
proof (induction xs arbitrary: i)
  case Nil
  then show ?case by simp
next
  case (Cons y ys)
  then show ?case
    by (cases i) (auto simp: ms_erase_0 ms_erase_Cons_Suc)
qed

lemma length_ms_erase: "i < length xs \<Longrightarrow> Suc (length (ms_erase i xs)) = length xs"
  by (auto simp: ms_erase_def)

lemma ordered_ms_erase: "ordered cmp xs \<Longrightarrow> ordered cmp (ms_erase i xs)"
proof (induction xs arbitrary: i)
  case Nil
  then show ?case by (simp add: ms_erase_def)
next
  case (Cons y ys)
  show ?case
  proof (cases i)
    case 0
    then show ?thesis using Cons.prems by (simp add: ms_erase_0 ordered_def)
  next
    case (Suc j)
    have "set (ms_erase j ys) \<subseteq> set ys"
      by (auto simp: ms_erase_def dest: in_set_takeD in_set_dropD)
    moreover have "ordered cmp (ms_erase j ys)"
      using Cons by (simp add: ordered_def)
    ultimately show ?thesis using Suc Cons.prems
      by (auto simp: ms_erase_Cons_Suc ordered_def)
  qed
qed

lemma ms_erase_last: "xs \<noteq> [] \<Longrightarrow> ms_erase (length xs - 1) xs = butlast xs"
  by (simp add: ms_erase_def butlast_conv_take)

lemma ordered_unique:
  assumes "strict_total cmp" and "ordered cmp xs" and "ordered cmp ys" and "mset xs = mset ys"
  shows "xs = ys"
  using assms(2-4)
proof (induction xs arbitrary: ys)
  case Nil
  then show ?case by simp
next
  case (Cons x xs)
  then obtain y ys' where ys: "ys = y # ys'" by (cases ys) auto
  have xin: "x \<in> set ys" using Cons.prems(3) by (metis list.set_intros(1) mset_eq_setD)
  have yin: "y \<in> set (x # xs)" using Cons.prems(3) ys by (metis list.set_intros(1) mset_eq_setD)
  have "\<not> cmp x y"
    using xin ys Cons.prems(2) assms(1) strict_totalD_irrefl [of cmp x]
    by (auto simp: ordered_def)
  moreover have "\<not> cmp y x"
    using yin Cons.prems(1) assms(1) strict_totalD_irrefl [of cmp y]
    by (auto simp: ordered_def)
  ultimately have "x = y" using assms(1) strict_totalD_eq by metis
  with Cons ys show ?case by (auto simp: ordered_def)
qed

subsection \<open>Faults\<close>

lemma attempt_Inl: "attempt f = Inl e \<longleftrightarrow> f = Some 0 \<and> e = ElementEx"
  by (cases f rule: attempt.cases) auto

lemma attempt_Inr: "attempt f = Inr f' \<Longrightarrow> pending f f'"
  by (cases f rule: attempt.cases) (auto simp: pending_def)

lemma pending_refl: "pending f f"
  by (simp add: pending_def split: option.splits)

lemma pending_trans: "pending f g \<Longrightarrow> pending g h \<Longrightarrow> pending f h"
  by (auto simp: pending_def split: option.splits)

lemma pending_None: "pending None f' \<longleftrightarrow> f' = None"
  by (simp add: pending_def)

lemma pending_Some_None: "pending f None \<longleftrightarrow> f = None"
  by (simp add: pending_def split: option.splits)

subsection \<open>insert and the invariant\<close>

lemma find_CompByFst_found:
  "ms_find CompByFst x ks \<noteq> length ks \<Longrightarrow> ks ! ms_find CompByFst x ks = x"
  by (rule ms_find_found [OF strict_total_CompByFst])

lemma insert_pq_cases:
  assumes "isValid q"
  shows "(\<exists>f'. insert_pq f key val q = (Inr f', inserted key val q) \<and> pending f f') \<or>
         (\<exists>q'. insert_pq f key val q = (Inl ElementEx, q') \<and> f \<noteq> None \<and>
               pairs_by_K q' = pairs_by_K q \<and> pairs_by_V q' = pairs_by_V q)"
proof -
  from assms obtain ks vs where kv: "pairs_by_K q = Some ks" "pairs_by_V q = Some vs"
    by (auto simp: isValid_def)
  show ?thesis
    unfolding insert_pq_def inserted_def
    by (auto simp: kv Let_def attempt_Inl find_CompByFst_found ms_erase_ms_insert
          split: sum.splits dest!: attempt_Inr)
       (auto simp: pending_def split: option.splits)
qed

lemma insert_pq_None:
  assumes "isValid q"
  shows "insert_pq None key val q = (Inr None, inserted key val q)"
  using insert_pq_cases [OF assms, of None key val] by (auto simp: pending_None)

lemma pq_invD:
  assumes "pq_inv q"
  obtains ks vs where "pairs_by_K q = Some ks" "pairs_by_V q = Some vs"
    "ordered CompByFst ks" "ordered CompBySnd vs" "mset ks = mset vs"
  using assms by (auto simp: pq_inv_def split: option.splits)

lemma pq_invI:
  "pairs_by_K q = Some ks \<Longrightarrow> pairs_by_V q = Some vs \<Longrightarrow> ordered CompByFst ks \<Longrightarrow>
   ordered CompBySnd vs \<Longrightarrow> mset ks = mset vs \<Longrightarrow> pq_inv q"
  using mset_eq_length [of ks vs] by (simp add: pq_inv_def)

lemma pq_inv_isValid: "pq_inv q \<Longrightarrow> isValid q"
  by (auto simp: pq_inv_def isValid_def split: option.splits)

lemma pq_inv_default_ctor: "pq_inv default_ctor"
  by (simp add: pq_inv_def default_ctor_def ordered_def)

lemma pq_inv_inserted:
  assumes "pq_inv q"
  shows "pq_inv (inserted key val q)"
proof -
  from assms obtain ks vs where kv: "pairs_by_K q = Some ks" "pairs_by_V q = Some vs"
    "ordered CompByFst ks" "ordered CompBySnd vs" "mset ks = mset vs"
    by (rule pq_invD)
  show ?thesis
    by (rule pq_invI [where ks = "fst (ms_insert CompByFst (key, val) ks)"
          and vs = "fst (ms_insert CompBySnd (key, val) vs)"])
       (simp_all add: inserted_def kv mset_ms_insert
          ordered_ms_insert [OF strict_total_CompByFst] ordered_ms_insert [OF strict_total_CompBySnd])
qed

lemma pairs_by_K_inserted:
  "pairs_by_K (inserted key val q) = Some (fst (ms_insert CompByFst (key, val) (the (pairs_by_K q))))"
  by (simp add: inserted_def)

lemma pairs_by_V_inserted:
  "pairs_by_V (inserted key val q) = Some (fst (ms_insert CompBySnd (key, val) (the (pairs_by_V q))))"
  by (simp add: inserted_def)

lemma size_pq_valid: "pairs_by_K q = Some ks \<Longrightarrow> pairs_by_V q = Some vs \<Longrightarrow> size_pq q = length ks"
  by (simp add: size_pq_def isValid_def)

lemma size_pq_inserted: "isValid q \<Longrightarrow> size_pq (inserted key val q) = Suc (size_pq q)"
  by (auto simp: size_pq_def isValid_def inserted_def length_ms_insert)

subsection \<open>deleteMin and deleteMax\<close>

lemma find_in_key_index:
  assumes "ordered CompByFst ks" and "x \<in> set ks"
  shows "ms_find CompByFst x ks < length ks" and "ks ! ms_find CompByFst x ks = x"
proof -
  have ne: "ms_find CompByFst x ks \<noteq> length ks"
    by (rule ms_find_mem [OF strict_total_CompByFst assms])
  then show "ms_find CompByFst x ks < length ks"
    using ms_find_le [of CompByFst x ks] by simp
  show "ks ! ms_find CompByFst x ks = x"
    by (rule find_CompByFst_found [OF ne])
qed

lemma find_in_value_index:
  assumes "ordered CompBySnd vs" and "x \<in> set vs"
  shows "ms_find CompBySnd x vs < length vs" and "vs ! ms_find CompBySnd x vs = x"
proof -
  have ne: "ms_find CompBySnd x vs \<noteq> length vs"
    by (rule ms_find_mem [OF strict_total_CompBySnd assms])
  then show "ms_find CompBySnd x vs < length vs"
    using ms_find_le [of CompBySnd x vs] by simp
  show "vs ! ms_find CompBySnd x vs = x"
    by (rule ms_find_found [OF strict_total_CompBySnd ne])
qed

lemma nonempty_indexes:
  assumes "pq_inv q" and "\<not> empty_pq q"
  obtains ks x xs where "pairs_by_K q = Some ks" "pairs_by_V q = Some (x # xs)"
    "ordered CompByFst ks" "ordered CompBySnd (x # xs)" "mset ks = mset (x # xs)" "ks \<noteq> []"
proof -
  from assms(1) obtain ks vs where kv: "pairs_by_K q = Some ks" "pairs_by_V q = Some vs"
    "ordered CompByFst ks" "ordered CompBySnd vs" "mset ks = mset vs"
    by (rule pq_invD)
  from assms(2) kv have "ks \<noteq> []" by (simp add: empty_pq_def size_pq_def isValid_def)
  moreover from this kv(5) have "vs \<noteq> []" by auto
  then obtain x xs where "vs = x # xs" by (cases vs) auto
  ultimately show thesis using kv that by simp
qed

lemma deleteMin_nonempty:
  assumes "pq_inv q" and "\<not> empty_pq q"
  shows "deleteMin f q = (case attempt f of Inl e \<Rightarrow> (Inl e, q) | Inr f1 \<Rightarrow> (Inr f1, deletedMin q))"
proof -
  from assms obtain ks x xs where kv: "pairs_by_K q = Some ks" "pairs_by_V q = Some (x # xs)"
    "ordered CompByFst ks" "ordered CompBySnd (x # xs)" "mset ks = mset (x # xs)" "ks \<noteq> []"
    by (rule nonempty_indexes)
  have "x \<in> set ks" using kv(5) by (metis list.set_intros(1) mset_eq_setD)
  from find_in_key_index(1) [OF kv(3) this] show ?thesis
    using assms(2) by (simp add: deleteMin_def deletedMin_def kv Let_def ms_erase_0 split: sum.splits)
qed

lemma deleteMax_nonempty:
  assumes "pq_inv q" and "\<not> empty_pq q"
  shows "deleteMax f q = (case attempt f of Inl e \<Rightarrow> (Inl e, q) | Inr f1 \<Rightarrow> (Inr f1, deletedMax q))"
proof -
  from assms obtain ks x xs where kv: "pairs_by_K q = Some ks" "pairs_by_V q = Some (x # xs)"
    "ordered CompByFst ks" "ordered CompBySnd (x # xs)" "mset ks = mset (x # xs)" "ks \<noteq> []"
    by (rule nonempty_indexes)
  have "last (x # xs) \<in> set (x # xs)" by (rule last_in_set) simp
  then have "last (x # xs) \<in> set ks" using kv(5) by (metis mset_eq_setD)
  note fd = find_in_key_index(1) [OF kv(3) this]
  have e1: "(x # xs) ! length xs = last (x # xs)"
    by (simp add: last_conv_nth)
  have e2: "ms_erase (length xs) (x # xs) = butlast (x # xs)"
    using ms_erase_last [of "x # xs"] by simp
  show ?thesis
    using assms(2) fd
    by (simp add: deleteMax_def deletedMax_def kv Let_def e1 e2 del: last.simps butlast.simps
          split: sum.splits)
qed

lemma pq_inv_deletedMin:
  assumes "pq_inv q" and "\<not> empty_pq q"
  shows "pq_inv (deletedMin q)"
proof -
  from assms obtain ks x xs where kv: "pairs_by_K q = Some ks" "pairs_by_V q = Some (x # xs)"
    "ordered CompByFst ks" "ordered CompBySnd (x # xs)" "mset ks = mset (x # xs)" "ks \<noteq> []"
    by (rule nonempty_indexes)
  have "x \<in> set ks" using kv(5) by (metis list.set_intros(1) mset_eq_setD)
  note fd = find_in_key_index [OF kv(3) this]
  show ?thesis
    by (rule pq_invI [where ks = "ms_erase (ms_find CompByFst x ks) ks" and vs = xs])
       (use kv fd in \<open>simp_all add: deletedMin_def mset_ms_erase ordered_ms_erase\<close>,
        simp add: ordered_def)
qed

lemma pq_inv_deletedMax:
  assumes "pq_inv q" and "\<not> empty_pq q"
  shows "pq_inv (deletedMax q)"
proof -
  from assms obtain ks x xs where kv: "pairs_by_K q = Some ks" "pairs_by_V q = Some (x # xs)"
    "ordered CompByFst ks" "ordered CompBySnd (x # xs)" "mset ks = mset (x # xs)" "ks \<noteq> []"
    by (rule nonempty_indexes)
  let ?vs = "x # xs"
  have "last ?vs \<in> set ?vs" by (rule last_in_set) simp
  then have "last ?vs \<in> set ks" using kv(5) by (metis mset_eq_setD)
  note fd = find_in_key_index [OF kv(3) this]
  have b: "butlast ?vs = ms_erase (length ?vs - 1) ?vs"
    by (rule ms_erase_last [symmetric]) simp
  have "mset (butlast ?vs) = mset ?vs - {#last ?vs#}"
    unfolding b by (subst mset_ms_erase) (simp_all add: last_conv_nth)
  moreover have "ordered CompBySnd (butlast ?vs)"
    unfolding b by (rule ordered_ms_erase [OF kv(4)])
  ultimately show ?thesis
    by (intro pq_invI [where ks = "ms_erase (ms_find CompByFst (last ?vs) ks) ks" and vs = "butlast ?vs"])
       (use kv fd in \<open>simp_all add: deletedMax_def mset_ms_erase ordered_ms_erase\<close>)
qed

subsection \<open>changeValue\<close>

lemma pq_inv_cong:
  "pairs_by_K q' = pairs_by_K q \<Longrightarrow> pairs_by_V q' = pairs_by_V q \<Longrightarrow> pq_inv q' = pq_inv q"
  by (simp add: pq_inv_def)

lemma value_index_head_least:
  assumes "ordered CompBySnd (x # xs)" and "p \<in> set (x # xs)"
  shows "snd x \<le> snd p"
  using assms by (auto simp: ordered_def CompBySnd_def split: if_splits)

lemma value_index_last_greatest:
  assumes "ordered CompBySnd vs" and "p \<in> set vs" and "vs \<noteq> []"
  shows "snd p \<le> snd (last vs)"
proof -
  from assms(2) obtain i where i: "i < length vs" "vs ! i = p"
    by (auto simp: in_set_conv_nth)
  show ?thesis
  proof (cases "i = length vs - 1")
    case True
    then show ?thesis using i assms(3) by (simp add: last_conv_nth)
  next
    case False
    then have "i < length vs - 1" using i(1) by simp
    then have "\<not> CompBySnd (vs ! (length vs - 1)) (vs ! i)"
      using assms(1) i(1) by (simp add: ordered_def sorted_wrt_iff_nth_less)
    then show ?thesis using i(2) assms(3)
      by (auto simp: CompBySnd_def last_conv_nth split: if_splits)
  qed
qed

lemma lower_bound_absent:
  assumes "\<forall>p \<in> set ks. fst p \<noteq> key"
  shows "ms_lower_bound CompByFst (key, mv) ks = length ks \<or>
         fst (ks ! ms_lower_bound CompByFst (key, mv) ks) \<noteq> key"
  using assms ms_lower_bound_le [of CompByFst "(key, mv)" ks]
  by (metis le_neq_implies_less nth_mem)

lemma lower_bound_present:
  assumes ord: "ordered CompByFst ks"
    and least: "\<forall>p \<in> set ks. mv \<le> snd p"
    and p: "p \<in> set ks" "fst p = key"
  shows "ms_lower_bound CompByFst (key, mv) ks < length ks"
    and "fst (ks ! ms_lower_bound CompByFst (key, mv) ks) = key"
    and "snd (ks ! ms_lower_bound CompByFst (key, mv) ks) \<le> snd p"
proof -
  let ?j = "ms_lower_bound CompByFst (key, mv) ks"
  from p(1) obtain i where i: "i < length ks" "ks ! i = p"
    by (auto simp: in_set_conv_nth)
  have "\<not> CompByFst p (key, mv)"
    using least p by (auto simp: CompByFst_def)
  then have "\<not> i < ?j"
    using ms_lower_bound_before [of i CompByFst "(key, mv)" ks] i(2) by auto
  then have le: "?j \<le> i" by simp
  then show lt: "?j < length ks" using i(1) by simp
  have ge: "\<not> CompByFst (ks ! ?j) (key, mv)"
    using ms_lower_bound_nth [of CompByFst "(key, mv)" ks] lt by simp
  have "ks ! ?j \<in> set ks" using lt by simp
  then have mvj: "mv \<le> snd (ks ! ?j)" using least by blast
  have lep: "\<not> CompByFst p (ks ! ?j)"
  proof (cases "?j = i")
    case True
    then show ?thesis using i(2) by (simp add: CompByFst_def)
  next
    case False
    then have "?j < i" using le by simp
    then show ?thesis
      using ord i by (auto simp: ordered_def sorted_wrt_iff_nth_less)
  qed
  from ge lep p(2) show "fst (ks ! ?j) = key"
    by (auto simp: CompByFst_def split: if_splits)
  with lep p(2) show "snd (ks ! ?j) \<le> snd p"
    by (auto simp: CompByFst_def split: if_splits)
qed

lemma make_to_find_empty:
  assumes "empty_pq q"
  shows "make_to_find ord f q = Inl PQEmptyEx \<or> make_to_find ord f q = Inl ElementEx \<and> f \<noteq> None"
  using assms
  by (cases ord) (auto simp: make_to_find_def minValue_def attempt_Inl split: sum.splits)

lemma make_to_find_empty_None:
  assumes "empty_pq q"
  shows "make_to_find ord None q = Inl PQEmptyEx"
  using make_to_find_empty [OF assms, of ord None] by simp

lemma make_to_find_nonempty:
  assumes "minValue q = Inr mv"
  shows "make_to_find ord f q =
     (case attempt f of Inl e \<Rightarrow> Inl e | Inr f1 \<Rightarrow>
     (case attempt f1 of Inl e \<Rightarrow> Inl e | Inr f2 \<Rightarrow> Inr (mv, f2)))"
  by (cases ord) (simp_all add: make_to_find_def assms split: sum.splits)

lemma changeValue_unfold:
  assumes "minValue q = Inr mv"
  shows "changeValue ord f key val q =
     (case attempt f of Inl e \<Rightarrow> (Inl e, q) | Inr f1 \<Rightarrow>
     (case attempt f1 of Inl e \<Rightarrow> (Inl e, q) | Inr f2 \<Rightarrow>
     (case pairs_by_K q of None \<Rightarrow> (Inl UndefinedBehaviour, q) | Some ks \<Rightarrow>
     (case attempt f2 of Inl e \<Rightarrow> (Inl e, q) | Inr f3 \<Rightarrow>
        if ms_lower_bound CompByFst (key, mv) ks = length ks then (Inl PQNotFoundEx, q)
        else
     (case attempt f3 of Inl e \<Rightarrow> (Inl e, q) | Inr f4 \<Rightarrow>
        if \<not> (fst (ks ! ms_lower_bound CompByFst (key, mv) ks) = key) then (Inl PQNotFoundEx, q)
        else
          (case insert_pq f4 key val q of
                (Inl e, q1) \<Rightarrow> (Inl e, q1)
              | (Inr f5, q1) \<Rightarrow> finish_change f5 (ks ! ms_lower_bound CompByFst (key, mv) ks) q1))))))"
  unfolding changeValue_def finish_change_def Let_def make_to_find_nonempty [OF assms]
  by (simp split: sum.splits)

lemma finish_change_cases:
  assumes "pq_inv q1" and "old \<in> set (the (pairs_by_K q1))"
  shows "(\<exists>f'. finish_change f5 old q1 = (Inr f', erased old q1) \<and> pending f5 f') \<or>
         (finish_change f5 old q1 = (Inl ElementEx, rolled_back q1) \<and> f5 \<noteq> None)"
proof -
  from assms(1) obtain ks vs where kv: "pairs_by_K q1 = Some ks" "pairs_by_V q1 = Some vs"
    "ordered CompByFst ks" "ordered CompBySnd vs" "mset ks = mset vs"
    by (rule pq_invD)
  from assms(2) kv have ink: "old \<in> set ks" by simp
  then have inv: "old \<in> set vs" using kv(5) by (metis mset_eq_setD)
  note fk = find_in_key_index(1) [OF kv(3) ink]
  note fv = find_in_value_index(1) [OF kv(4) inv]
  show ?thesis
    using fk fv unfolding finish_change_def erased_def rolled_back_def
    by (auto simp: kv Let_def attempt_Inl split: sum.splits dest!: attempt_Inr)
       (auto simp: pending_def split: option.splits)
qed

lemma rolled_back_inserted:
  assumes "pairs_by_K q = Some ks" "pairs_by_V q = Some vs"
  shows "pairs_by_K (rolled_back (inserted key val q)) = Some ks"
    and "pairs_by_V (rolled_back (inserted key val q)) = Some vs"
  by (simp_all add: rolled_back_def inserted_def assms ms_erase_ms_insert)

lemma minValue_nonempty:
  "pairs_by_K q = Some ks \<Longrightarrow> pairs_by_V q = Some (x # xs) \<Longrightarrow> ks \<noteq> [] \<Longrightarrow> minValue q = Inr (snd x)"
  by (simp add: minValue_def empty_pq_def size_pq_def isValid_def)

lemma pending_not_None: "pending f f' \<Longrightarrow> f' \<noteq> None \<Longrightarrow> f \<noteq> None"
  by (auto simp: pending_def split: option.splits)

lemma changeValue_cases:
  assumes inv: "pq_inv q"
  shows "(\<exists>f'. changeValue ord f key val q = (Inr f', changed key val q) \<and> pending f f' \<and>
               key \<in> fst ` set (the (pairs_by_K q))) \<or>
         (\<exists>e q'. changeValue ord f key val q = (Inl e, q') \<and>
               pairs_by_K q' = pairs_by_K q \<and> pairs_by_V q' = pairs_by_V q \<and>
               (e = ElementEx \<and> f \<noteq> None \<or> e = PQEmptyEx \<and> empty_pq q \<or>
                e = PQNotFoundEx \<and> \<not> empty_pq q \<and> key \<notin> fst ` set (the (pairs_by_K q))))"
    (is "?ok \<or> ?err")
proof (cases "empty_pq q")
  case True
  have "make_to_find ord f q = Inl PQEmptyEx \<or> make_to_find ord f q = Inl ElementEx \<and> f \<noteq> None"
    by (rule make_to_find_empty [OF True])
  then have "changeValue ord f key val q = (Inl PQEmptyEx, q) \<or>
      changeValue ord f key val q = (Inl ElementEx, q) \<and> f \<noteq> None"
    by (auto simp: changeValue_def)
  with True show ?thesis by auto
next
  case ne: False
  from inv ne obtain ks x xs where kv: "pairs_by_K q = Some ks" "pairs_by_V q = Some (x # xs)"
    "ordered CompByFst ks" "ordered CompBySnd (x # xs)" "mset ks = mset (x # xs)" "ks \<noteq> []"
    by (rule nonempty_indexes)
  have mv: "minValue q = Inr (snd x)"
    by (rule minValue_nonempty [OF kv(1,2,6)])
  have least: "\<forall>p \<in> set ks. snd x \<le> snd p"
    using value_index_head_least [OF kv(4)] kv(5) by (metis mset_eq_setD)
  let ?j = "ms_lower_bound CompByFst (key, snd x) ks"
  show ?thesis
  proof (cases "attempt f")
    case (Inl e)
    then have "changeValue ord f key val q = (Inl ElementEx, q)" "f \<noteq> None"
      by (auto simp: changeValue_unfold [OF mv] attempt_Inl)
    then show ?thesis by auto
  next
    case f1: (Inr f1)
    note p1 = attempt_Inr [OF f1]
    show ?thesis
    proof (cases "attempt f1")
      case (Inl e)
      then have "changeValue ord f key val q = (Inl ElementEx, q)"
        by (auto simp: changeValue_unfold [OF mv] f1 mv attempt_Inl)
      moreover have "f \<noteq> None" using pending_not_None [OF p1] Inl by (auto simp: attempt_Inl)
      ultimately show ?thesis by auto
    next
      case f2: (Inr f2)
      note p2 = pending_trans [OF p1 attempt_Inr [OF f2]]
      show ?thesis
      proof (cases "attempt f2")
        case (Inl e)
        then have "changeValue ord f key val q = (Inl ElementEx, q)"
          by (auto simp: changeValue_unfold [OF mv] f1 f2 mv kv attempt_Inl)
        moreover have "f \<noteq> None" using pending_not_None [OF p2] Inl by (auto simp: attempt_Inl)
        ultimately show ?thesis by auto
      next
        case f3: (Inr f3)
        note p3 = pending_trans [OF p2 attempt_Inr [OF f3]]
        show ?thesis
        proof (cases "?j = length ks")
          case True
          then have "changeValue ord f key val q = (Inl PQNotFoundEx, q)"
            by (simp add: changeValue_unfold [OF mv] f1 f2 f3 mv kv)
          moreover have "key \<notin> fst ` set ks"
            using lower_bound_present(1) [OF kv(3) least] True by force
          ultimately show ?thesis using ne kv by auto
        next
          case lt: False
          show ?thesis
          proof (cases "attempt f3")
            case (Inl e)
            then have "changeValue ord f key val q = (Inl ElementEx, q)"
              using lt by (auto simp: changeValue_unfold [OF mv] f1 f2 f3 mv kv attempt_Inl)
            moreover have "f \<noteq> None" using pending_not_None [OF p3] Inl by (auto simp: attempt_Inl)
            ultimately show ?thesis by auto
          next
            case f4: (Inr f4)
            note p4 = pending_trans [OF p3 attempt_Inr [OF f4]]
            show ?thesis
            proof (cases "fst (ks ! ?j) = key")
              case False
              then have "changeValue ord f key val q = (Inl PQNotFoundEx, q)"
                using lt by (simp add: changeValue_unfold [OF mv] f1 f2 f3 f4 mv kv)
              moreover have "key \<notin> fst ` set ks"
                using lower_bound_present(2) [OF kv(3) least] False by force
              ultimately show ?thesis using ne kv by auto
            next
              case found: True
              have jlt: "?j < length ks"
                using lt ms_lower_bound_le [of CompByFst "(key, snd x)" ks] by simp
              then have old: "ks ! ?j \<in> set ks" by simp
              have present: "key \<in> fst ` set ks"
                using old found by force
              have step: "changeValue ord f key val q =
                  (case insert_pq f4 key val q of
                     (Inl e, q1) \<Rightarrow> (Inl e, q1)
                   | (Inr f5, q1) \<Rightarrow> finish_change f5 (ks ! ?j) q1)"
                using lt found by (simp add: changeValue_unfold [OF mv] f1 f2 f3 f4 mv kv)
              from insert_pq_cases [OF pq_inv_isValid [OF inv], of f4 key val]
              show ?thesis
              proof (elim disjE exE conjE)
                fix q'
                assume a: "insert_pq f4 key val q = (Inl ElementEx, q')" "f4 \<noteq> None"
                  "pairs_by_K q' = pairs_by_K q" "pairs_by_V q' = pairs_by_V q"
                have "changeValue ord f key val q = (Inl ElementEx, q')"
                  by (simp add: step a(1))
                moreover have "f \<noteq> None" using pending_not_None [OF p4] a(2) by auto
                ultimately show ?thesis using a(3,4) by auto
              next
                fix f5
                assume a: "insert_pq f4 key val q = (Inr f5, inserted key val q)" "pending f4 f5"
                note p5 = pending_trans [OF p4 a(2)]
                have step2: "changeValue ord f key val q = finish_change f5 (ks ! ?j) (inserted key val q)"
                  by (simp add: step a(1))
                have old1: "ks ! ?j \<in> set (the (pairs_by_K (inserted key val q)))"
                  using old by (simp add: pairs_by_K_inserted kv set_ms_insert)
                from finish_change_cases [OF pq_inv_inserted [OF inv] old1, of f5]
                show ?thesis
                proof (elim disjE exE conjE)
                  fix f'
                  assume b: "finish_change f5 (ks ! ?j) (inserted key val q) =
                      (Inr f', erased (ks ! ?j) (inserted key val q))" "pending f5 f'"
                  have "changeValue ord f key val q = (Inr f', changed key val q)"
                    by (simp add: step2 b(1) changed_def kv)
                  moreover have "pending f f'" by (rule pending_trans [OF p5 b(2)])
                  ultimately show ?thesis using present kv by auto
                next
                  assume b: "finish_change f5 (ks ! ?j) (inserted key val q) =
                      (Inl ElementEx, rolled_back (inserted key val q))" "f5 \<noteq> None"
                  have "changeValue ord f key val q = (Inl ElementEx, rolled_back (inserted key val q))"
                    by (simp add: step2 b(1))
                  moreover have "f \<noteq> None" using pending_not_None [OF p5] b(2) by auto
                  ultimately show ?thesis
                    using rolled_back_inserted [OF kv(1,2), of key val] kv by auto
                qed
              qed
            qed
          qed
        qed
      qed
    qed
  qed
qed

lemma pq_inv_erased:
  assumes "pq_inv q1" and "old \<in> set (the (pairs_by_K q1))"
  shows "pq_inv (erased old q1)"
    and "mset (the (pairs_by_K (erased old q1))) = mset (the (pairs_by_K q1)) - {#old#}"
    and "mset (the (pairs_by_V (erased old q1))) = mset (the (pairs_by_V q1)) - {#old#}"
proof -
  from assms(1) obtain ks vs where kv: "pairs_by_K q1 = Some ks" "pairs_by_V q1 = Some vs"
    "ordered CompByFst ks" "ordered CompBySnd vs" "mset ks = mset vs"
    by (rule pq_invD)
  from assms(2) kv have ink: "old \<in> set ks" by simp
  then have inv: "old \<in> set vs" using kv(5) by (metis mset_eq_setD)
  note fk = find_in_key_index [OF kv(3) ink]
  note fv = find_in_value_index [OF kv(4) inv]
  show k: "mset (the (pairs_by_K (erased old q1))) = mset (the (pairs_by_K q1)) - {#old#}"
    using fk by (simp add: erased_def kv mset_ms_erase)
  show v: "mset (the (pairs_by_V (erased old q1))) = mset (the (pairs_by_V q1)) - {#old#}"
    using fv by (simp add: erased_def kv mset_ms_erase)
  show "pq_inv (erased old q1)"
    by (rule pq_invI [where ks = "ms_erase (ms_find CompByFst old ks) ks"
          and vs = "ms_erase (ms_find CompBySnd old vs) vs"])
       (use kv fk fv in \<open>simp_all add: erased_def mset_ms_erase ordered_ms_erase\<close>)
qed

subsection \<open>merge\<close>

lemma range_insert_cases:
  "(\<exists>f'. range_insert cmp ys f xs = (Inr f', range_inserted cmp ys xs) \<and> pending f f') \<or>
   (\<exists>xs'. range_insert cmp ys f xs = (Inl ElementEx, xs') \<and> f \<noteq> None)"
proof (induction ys arbitrary: f xs)
  case Nil
  then show ?case by (simp add: range_inserted_def pending_refl)
next
  case (Cons y ys)
  show ?case
  proof (cases "attempt f")
    case (Inl e)
    then show ?thesis by (auto simp: attempt_Inl)
  next
    case (Inr f1)
    note p = attempt_Inr [OF Inr]
    from Cons.IH [of f1 "fst (ms_insert cmp y xs)"] show ?thesis
    proof (elim disjE exE conjE)
      fix f'
      assume "range_insert cmp ys f1 (fst (ms_insert cmp y xs)) =
          (Inr f', range_inserted cmp ys (fst (ms_insert cmp y xs)))" "pending f1 f'"
      then show ?thesis using Inr p
        by (auto simp: range_inserted_def intro: pending_trans)
    next
      fix xs'
      assume "range_insert cmp ys f1 (fst (ms_insert cmp y xs)) = (Inl ElementEx, xs')" "f1 \<noteq> None"
      then show ?thesis using Inr pending_not_None [OF p] by auto
    qed
  qed
qed

lemma mset_range_inserted: "mset (range_inserted cmp ys xs) = mset xs + mset ys"
  unfolding range_inserted_def by (induction ys arbitrary: xs) (simp_all add: mset_ms_insert)

lemma length_range_inserted: "length (range_inserted cmp ys xs) = length xs + length ys"
  unfolding range_inserted_def by (induction ys arbitrary: xs) (simp_all add: length_ms_insert)

lemma ordered_range_inserted:
  "strict_total cmp \<Longrightarrow> ordered cmp xs \<Longrightarrow> ordered cmp (range_inserted cmp ys xs)"
  unfolding range_inserted_def by (induction ys arbitrary: xs) (simp_all add: ordered_ms_insert)

lemma copy_ctor_cases:
  assumes "isValid q"
  shows "(\<exists>f' c. copy_ctor f q = Inr (f', c) \<and> pending f f' \<and>
              pairs_by_K c = pairs_by_K q \<and> pairs_by_V c = pairs_by_V q) \<or>
         (copy_ctor f q = Inl ElementEx \<and> f \<noteq> None)"
proof -
  from assms obtain ks vs where kv: "pairs_by_K q = Some ks" "pairs_by_V q = Some vs"
    by (auto simp: isValid_def)
  show ?thesis
    unfolding copy_ctor_def
    by (auto simp: kv attempt_Inl split: sum.splits dest!: attempt_Inr)
       (auto simp: pending_def split: option.splits)
qed

lemma default_construct_cases:
  "(\<exists>f'. (default_construct f :: error + fault \<times> ('k, 'v) PriorityQueue) = Inr (f', default_ctor) \<and>
         pending f f') \<or>
   ((default_construct f :: error + fault \<times> ('k, 'v) PriorityQueue) = Inl ElementEx \<and> f \<noteq> None)"
  unfolding default_construct_def
  by (auto simp: attempt_Inl split: sum.splits dest!: attempt_Inr)
     (auto simp: pending_def split: option.splits)

lemma clear_cases:
  fixes q :: "('k, 'v) PriorityQueue"
  shows "(\<exists>f'. clear f q = (Inr f', cleared q) \<and> pending f f') \<or>
         (clear f q = (Inl Terminated, q) \<and> f \<noteq> None)"
  using default_construct_cases [of f, where ?'k = 'k and ?'v = 'v]
  by (auto simp: clear_def cleared_def default_ctor_def)

lemma pq_inv_default_construct:
  "case default_construct f of
     Inl e \<Rightarrow> e = ElementEx
   | Inr (f', c) \<Rightarrow> pq_inv (c :: ('k::linorder, 'v::linorder) PriorityQueue)"
  using default_construct_cases [of f, where ?'k = 'k and ?'v = 'v] pq_inv_default_ctor
  by auto

lemma merge_cases:
  assumes "this \<noteq> queue" and "isValid (h this)" and "isValid (h queue)"
  shows "(\<exists>f'. merge f this queue h = (Inr f', merged this queue h) \<and> pending f f') \<or>
         (merge f this queue h = (Inl ElementEx, h) \<and> f \<noteq> None) \<or>
         (merge f this queue h = (Inl Terminated, merged_uncleared this queue h) \<and> f \<noteq> None)"
proof -
  from assms(2) obtain ks vs where kv: "pairs_by_K (h this) = Some ks" "pairs_by_V (h this) = Some vs"
    by (auto simp: isValid_def)
  from assms(3) obtain qks qvs where qkv: "pairs_by_K (h queue) = Some qks" "pairs_by_V (h queue) = Some qvs"
    by (auto simp: isValid_def)
  from copy_ctor_cases [OF assms(2), of f] show ?thesis
  proof (elim disjE exE conjE)
    assume "copy_ctor f (h this) = Inl ElementEx" "f \<noteq> None"
    then show ?thesis using assms(1) by (simp add: merge_def)
  next
    fix f1 tmp
    assume c: "copy_ctor f (h this) = Inr (f1, tmp)" "pending f f1"
      "pairs_by_K tmp = pairs_by_K (h this)" "pairs_by_V tmp = pairs_by_V (h this)"
    have restore: "h(this := (h this)\<lparr>pairs_by_K := pairs_by_K tmp, pairs_by_V := pairs_by_V tmp\<rparr>) = h"
      by (simp add: c(3,4))
    have step: "merge f this queue h =
        (case range_insert CompByFst qks f1 ks of
           (Inl e, ks1) \<Rightarrow> (Inl e, h)
         | (Inr f2, ks1) \<Rightarrow>
             (case range_insert CompBySnd qvs f2 vs of
                (Inl e, vs1) \<Rightarrow> (Inl e, h)
              | (Inr f3, vs1) \<Rightarrow>
                  (case clear f3 (h queue) of
                     (r, cleared_queue) \<Rightarrow>
                       (r, h(this := (h this)\<lparr>pairs_by_K := Some ks1, pairs_by_V := Some vs1\<rparr>,
                             queue := cleared_queue)))))"
      using assms(1) by (simp add: merge_def c(1) kv qkv restore split: prod.splits sum.splits)
    from range_insert_cases [of CompByFst qks f1 ks] show ?thesis
    proof (elim disjE exE conjE)
      fix xs'
      assume "range_insert CompByFst qks f1 ks = (Inl ElementEx, xs')" "f1 \<noteq> None"
      then show ?thesis using pending_not_None [OF c(2)] by (simp add: step)
    next
      fix f2
      assume k: "range_insert CompByFst qks f1 ks = (Inr f2, range_inserted CompByFst qks ks)" "pending f1 f2"
      note p2 = pending_trans [OF c(2) k(2)]
      from range_insert_cases [of CompBySnd qvs f2 vs] show ?thesis
      proof (elim disjE exE conjE)
        fix xs'
        assume "range_insert CompBySnd qvs f2 vs = (Inl ElementEx, xs')" "f2 \<noteq> None"
        then show ?thesis using pending_not_None [OF p2] by (simp add: step k(1))
      next
        fix f3
        assume v: "range_insert CompBySnd qvs f2 vs = (Inr f3, range_inserted CompBySnd qvs vs)" "pending f2 f3"
        note p3 = pending_trans [OF p2 v(2)]
        from clear_cases [of f3 "h queue"] show ?thesis
        proof (elim disjE exE conjE)
          fix f4
          assume cl: "clear f3 (h queue) = (Inr f4, cleared (h queue))" "pending f3 f4"
          have "merge f this queue h = (Inr f4, merged this queue h)"
            by (simp add: step k(1) v(1) cl(1) merged_def kv qkv)
          then show ?thesis using pending_trans [OF p3 cl(2)] by auto
        next
          assume cl: "clear f3 (h queue) = (Inl Terminated, h queue)" "f3 \<noteq> None"
          have "(h(this := (h this)\<lparr>pairs_by_K := Some (range_inserted CompByFst qks ks),
                                      pairs_by_V := Some (range_inserted CompBySnd qvs vs)\<rparr>))
                  (queue := h queue) =
                h(this := (h this)\<lparr>pairs_by_K := Some (range_inserted CompByFst qks ks),
                                     pairs_by_V := Some (range_inserted CompBySnd qvs vs)\<rparr>)"
            using assms(1) by (intro ext) simp
          then have "merge f this queue h = (Inl Terminated, merged_uncleared this queue h)"
            by (simp add: step k(1) v(1) cl(1) merged_uncleared_def kv qkv)
          then show ?thesis using pending_not_None [OF p3 cl(2)] by simp
        qed
      qed
    qed
  qed
qed

lemma pq_inv_cleared: "pq_inv (cleared q)"
  by (simp add: pq_inv_def cleared_def ordered_def)

lemma pq_inv_clear:
  assumes "pq_inv q"
  shows "pq_inv (snd (clear f q))"
  using clear_cases [of f q] assms pq_inv_cleared by auto

lemma size_pq_cleared: "size_pq (cleared q) = 0"
  by (simp add: size_pq_def cleared_def isValid_def)

lemma merged_this:
  assumes "this \<noteq> queue" and "pq_inv (h this)" and "pq_inv (h queue)"
  shows "pq_inv (merged this queue h this)"
    and "mset (the (pairs_by_K (merged this queue h this))) =
           mset (the (pairs_by_K (h this))) + mset (the (pairs_by_K (h queue)))"
    and "mset (the (pairs_by_V (merged this queue h this))) =
           mset (the (pairs_by_V (h this))) + mset (the (pairs_by_V (h queue)))"
    and "size_pq (merged this queue h this) = size_pq (h this) + size_pq (h queue)"
proof -
  from assms(2) obtain ks vs where kv: "pairs_by_K (h this) = Some ks" "pairs_by_V (h this) = Some vs"
    "ordered CompByFst ks" "ordered CompBySnd vs" "mset ks = mset vs"
    by (rule pq_invD)
  from assms(3) obtain qks qvs where qkv: "pairs_by_K (h queue) = Some qks" "pairs_by_V (h queue) = Some qvs"
    "ordered CompByFst qks" "ordered CompBySnd qvs" "mset qks = mset qvs"
    by (rule pq_invD)
  have m: "merged this queue h this =
      (h this)\<lparr>pairs_by_K := Some (range_inserted CompByFst qks ks),
               pairs_by_V := Some (range_inserted CompBySnd qvs vs)\<rparr>"
    using assms(1) by (simp add: merged_def kv qkv)
  show "pq_inv (merged this queue h this)"
    unfolding m
    by (rule pq_invI [where ks = "range_inserted CompByFst qks ks" and vs = "range_inserted CompBySnd qvs vs"])
       (simp_all add: mset_range_inserted kv qkv
          ordered_range_inserted [OF strict_total_CompByFst] ordered_range_inserted [OF strict_total_CompBySnd])
  show "mset (the (pairs_by_K (merged this queue h this))) =
           mset (the (pairs_by_K (h this))) + mset (the (pairs_by_K (h queue)))"
    unfolding m by (simp add: mset_range_inserted kv qkv)
  show "mset (the (pairs_by_V (merged this queue h this))) =
           mset (the (pairs_by_V (h this))) + mset (the (pairs_by_V (h queue)))"
    unfolding m by (simp add: mset_range_inserted kv qkv)
  show "size_pq (merged this queue h this) = size_pq (h this) + size_pq (h queue)"
    unfolding m by (simp add: size_pq_def isValid_def kv qkv length_range_inserted)
qed

lemma merged_queue: "merged this queue h queue = cleared (h queue)"
  by (simp add: merged_def)

lemma merged_uncleared_this:
  "this \<noteq> queue \<Longrightarrow> merged_uncleared this queue h this = merged this queue h this"
  by (simp add: merged_uncleared_def merged_def)

lemma merged_uncleared_other: "a \<noteq> this \<Longrightarrow> merged_uncleared this queue h a = h a"
  by (simp add: merged_uncleared_def)

lemma merged_other: "a \<noteq> this \<Longrightarrow> a \<noteq> queue \<Longrightarrow> merged this queue h a = h a"
  by (simp add: merged_def)

subsection \<open>The equality loop, the examples, the exception guarantee\<close>

lemma eq_loop_None: "length xs = length ys \<Longrightarrow> eq_loop None xs ys = Inr (xs = ys)"
  by (induction xs ys rule: list_induct2) (auto simp: prod_eq_iff)

lemma attempt_Some: "attempt (Some n) = (if n = 0 then Inl ElementEx else Inr (Some (n - 1)))"
  by (cases n) simp_all

lemma pq_inv_example_queue: "pq_inv example_queue"
  by (simp add: pq_inv_def example_queue_def ordered_def CompByFst_def CompBySnd_def)

lemma pq_inv_example_store: "pq_inv (example_store a)"
  by (simp add: pq_inv_def example_store_def example_queue_def ordered_def CompByFst_def CompBySnd_def)

lemma insert_pq_guarantee:
  assumes "isValid q"
  shows "case insert_pq f key val q of
           (Inl e, q') \<Rightarrow> e = ElementEx \<and> f \<noteq> None \<and>
                          pairs_by_K q' = pairs_by_K q \<and> pairs_by_V q' = pairs_by_V q
         | (Inr f', q') \<Rightarrow> pending f f'"
  using insert_pq_cases [OF assms, of f key val] by auto

lemma changeValue_guarantee:
  assumes "pq_inv q"
  shows "case changeValue ord f key val q of
           (Inl e, q') \<Rightarrow> (e = ElementEx \<and> f \<noteq> None \<or> e = PQEmptyEx \<or> e = PQNotFoundEx) \<and>
                          pairs_by_K q' = pairs_by_K q \<and> pairs_by_V q' = pairs_by_V q
         | (Inr f', q') \<Rightarrow> pending f f'"
  using changeValue_cases [OF assms, of ord f key val] by auto

lemma merge_guarantee:
  assumes "isValid (h this)" and "isValid (h queue)"
  shows "case merge f this queue h of
           (Inl e, h') \<Rightarrow>
              f \<noteq> None \<and>
              (e = ElementEx \<and> h' = h \<or> e = Terminated \<and> h' = merged_uncleared this queue h)
         | (Inr f', h') \<Rightarrow> pending f f'"
proof (cases "this = queue")
  case True
  then show ?thesis by (simp add: merge_def pending_refl)
next
  case False
  from merge_cases [OF False assms, of f] show ?thesis by auto
qed

subsection \<open>Every operation keeps the invariant\<close>

lemma pq_inv_insert_pq:
  assumes "pq_inv q"
  shows "pq_inv (snd (insert_pq f key val q))"
proof -
  from insert_pq_cases [OF pq_inv_isValid [OF assms], of f key val] show ?thesis
  proof (elim disjE exE conjE)
    fix f'
    assume "insert_pq f key val q = (Inr f', inserted key val q)"
    then show ?thesis using pq_inv_inserted [OF assms, of key val] by simp
  next
    fix q'
    assume "insert_pq f key val q = (Inl ElementEx, q')"
      "pairs_by_K q' = pairs_by_K q" "pairs_by_V q' = pairs_by_V q"
    then show ?thesis using assms pq_inv_cong [of q' q] by simp
  qed
qed

lemma pq_inv_deleteMin:
  assumes "pq_inv q"
  shows "pq_inv (snd (deleteMin f q))"
proof (cases "empty_pq q")
  case True
  then show ?thesis using assms by (simp add: deleteMin_def)
next
  case False
  show ?thesis
    using assms pq_inv_deletedMin [OF assms False]
    by (simp add: deleteMin_nonempty [OF assms False] split: sum.splits)
qed

lemma pq_inv_deleteMax:
  assumes "pq_inv q"
  shows "pq_inv (snd (deleteMax f q))"
proof (cases "empty_pq q")
  case True
  then show ?thesis using assms by (simp add: deleteMax_def)
next
  case False
  show ?thesis
    using assms pq_inv_deletedMax [OF assms False]
    by (simp add: deleteMax_nonempty [OF assms False] split: sum.splits)
qed

lemma pq_inv_changed:
  assumes "pq_inv q" and "key \<in> fst ` set (the (pairs_by_K q))"
  shows "pq_inv (changed key val q)"
proof -
  have ne: "\<not> empty_pq q"
    using assms by (auto elim!: pq_invD simp: empty_pq_def size_pq_def isValid_def)
  from assms(1) ne obtain ks x xs where kv: "pairs_by_K q = Some ks" "pairs_by_V q = Some (x # xs)"
    "ordered CompByFst ks" "ordered CompBySnd (x # xs)" "mset ks = mset (x # xs)" "ks \<noteq> []"
    by (rule nonempty_indexes)
  have least: "\<forall>p \<in> set ks. snd x \<le> snd p"
    using value_index_head_least [OF kv(4)] kv(5) by (metis mset_eq_setD)
  from assms(2) kv obtain p where p: "p \<in> set ks" "fst p = key" by auto
  have "ms_lower_bound CompByFst (key, snd x) ks < length ks"
    by (rule lower_bound_present(1) [OF kv(3) least p])
  then have "ks ! ms_lower_bound CompByFst (key, snd x) ks \<in> set ks" by simp
  then have "ks ! ms_lower_bound CompByFst (key, snd x) ks \<in> set (the (pairs_by_K (inserted key val q)))"
    by (simp add: pairs_by_K_inserted kv set_ms_insert)
  from pq_inv_erased(1) [OF pq_inv_inserted [OF assms(1)] this] show ?thesis
    by (simp add: changed_def kv)
qed

lemma pq_inv_changeValue:
  assumes "pq_inv q"
  shows "pq_inv (snd (changeValue ord f key val q))"
proof -
  from changeValue_cases [OF assms, of ord f key val] show ?thesis
  proof
    assume "\<exists>f'. changeValue ord f key val q = (Inr f', changed key val q) \<and> pending f f' \<and>
               key \<in> fst ` set (the (pairs_by_K q))"
    then obtain f' where "changeValue ord f key val q = (Inr f', changed key val q)"
      "key \<in> fst ` set (the (pairs_by_K q))" by blast
    then show ?thesis using pq_inv_changed [OF assms, of key val] by simp
  next
    assume "\<exists>e q'. changeValue ord f key val q = (Inl e, q') \<and>
               pairs_by_K q' = pairs_by_K q \<and> pairs_by_V q' = pairs_by_V q \<and>
               (e = ElementEx \<and> f \<noteq> None \<or> e = PQEmptyEx \<and> empty_pq q \<or>
                e = PQNotFoundEx \<and> \<not> empty_pq q \<and> key \<notin> fst ` set (the (pairs_by_K q)))"
    then obtain e q' where "changeValue ord f key val q = (Inl e, q')"
      "pairs_by_K q' = pairs_by_K q" "pairs_by_V q' = pairs_by_V q" by blast
    then show ?thesis using assms pq_inv_cong [of q' q] by simp
  qed
qed

lemma pq_inv_merge:
  assumes "pq_inv (h this)" and "pq_inv (h queue)"
  shows "pq_inv (snd (merge f this queue h) this)" and "pq_inv (snd (merge f this queue h) queue)"
proof -
  show "pq_inv (snd (merge f this queue h) this)"
  proof (cases "this = queue")
    case True
    then show ?thesis using assms by (simp add: merge_def)
  next
    case False
    from merge_cases [OF False pq_inv_isValid [OF assms(1)] pq_inv_isValid [OF assms(2)], of f]
    show ?thesis using assms merged_this(1) [OF False assms]
      by (auto simp: merged_uncleared_this [OF False])
  qed
  show "pq_inv (snd (merge f this queue h) queue)"
  proof (cases "this = queue")
    case True
    then show ?thesis using assms by (simp add: merge_def)
  next
    case False
    from merge_cases [OF False pq_inv_isValid [OF assms(1)] pq_inv_isValid [OF assms(2)], of f]
    show ?thesis using assms False
      by (auto simp: merged_queue pq_inv_cleared merged_uncleared_other)
  qed
qed

lemma pq_inv_swap_pq:
  assumes "pq_inv (h this)" and "pq_inv (h queue)"
  shows "pq_inv (swap_pq this queue h this)" and "pq_inv (swap_pq this queue h queue)"
proof -
  show "pq_inv (swap_pq this queue h this)"
  proof (cases "this = queue")
    case True
    then show ?thesis using assms by (simp add: swap_pq_def)
  next
    case False
    then have "pq_inv (swap_pq this queue h this) = pq_inv (h queue)"
      by (intro pq_inv_cong) (simp_all add: swap_pq_def)
    then show ?thesis using assms by simp
  qed
  show "pq_inv (swap_pq this queue h queue)"
  proof (cases "this = queue")
    case True
    then show ?thesis using assms by (simp add: swap_pq_def)
  next
    case False
    then have "pq_inv (swap_pq this queue h queue) = pq_inv (h this)"
      by (intro pq_inv_cong) (simp_all add: swap_pq_def)
    then show ?thesis using assms by simp
  qed
qed

lemma pq_inv_copy_ctor:
  assumes "pq_inv q"
  shows "case copy_ctor f q of Inl e \<Rightarrow> e = ElementEx | Inr (f', c) \<Rightarrow> pq_inv c"
proof -
  from copy_ctor_cases [OF pq_inv_isValid [OF assms], of f] show ?thesis
  proof (elim disjE exE conjE)
    fix f' c
    assume "copy_ctor f q = Inr (f', c)" "pairs_by_K c = pairs_by_K q" "pairs_by_V c = pairs_by_V q"
    then show ?thesis using assms pq_inv_cong [of c q] by simp
  next
    assume "copy_ctor f q = Inl ElementEx"
    then show ?thesis by simp
  qed
qed

lemma pq_inv_copy_assign:
  assumes "pq_inv (h this)" and "pq_inv (h queue)"
  shows "pq_inv (snd (copy_assign f this queue h) this)"
proof (cases "this = queue")
  case True
  then show ?thesis using assms by (simp add: copy_assign_def)
next
  case False
  from copy_ctor_cases [OF pq_inv_isValid [OF assms(2)], of f] show ?thesis
  proof (elim disjE exE conjE)
    fix f' c
    assume c: "copy_ctor f (h queue) = Inr (f', c)" "pairs_by_K c = pairs_by_K (h queue)"
      "pairs_by_V c = pairs_by_V (h queue)"
    have "pq_inv (snd (copy_assign f this queue h) this) = pq_inv (h queue)"
      using False by (intro pq_inv_cong) (simp_all add: copy_assign_def c)
    then show ?thesis using assms by simp
  next
    assume "copy_ctor f (h queue) = Inl ElementEx"
    then show ?thesis using assms False by (simp add: copy_assign_def)
  qed
qed

lemma pq_inv_move_assign:
  assumes "pq_inv (h queue)"
  shows "pq_inv (move_assign this queue h this)"
proof -
  have "pq_inv (move_assign this queue h this) = pq_inv (h queue)"
    by (intro pq_inv_cong) (simp_all add: move_assign_def)
  then show ?thesis using assms by simp
qed

lemma move_assign_source:
  "this \<noteq> queue \<Longrightarrow> pairs_by_K (move_assign this queue h queue) = None \<and>
     pairs_by_V (move_assign this queue h queue) = None \<and> size_pq (move_assign this queue h queue) = 0"
  by (simp add: move_assign_def size_pq_def isValid_def)

subsection \<open>The entries after changeValue, insert and merge\<close>

lemma key_index_valid: "pairs_by_K q = Some ks \<Longrightarrow> key_index q = ks"
  by (simp add: key_index_def)

lemma value_index_valid: "pairs_by_V q = Some vs \<Longrightarrow> value_index q = vs"
  by (simp add: value_index_def)

lemma pq_inv_indexes:
  assumes "pq_inv q"
  shows "pairs_by_K q = Some (key_index q)" and "pairs_by_V q = Some (value_index q)"
    and "ordered CompByFst (key_index q)" and "ordered CompBySnd (value_index q)"
    and "mset (key_index q) = mset (value_index q)"
  using assms by (auto simp: pq_inv_def key_index_def value_index_def split: option.splits)

lemma changeValue_None_present:
  assumes "pq_inv q" and "key \<in> fst ` set (key_index q)"
  shows "changeValue ord None key val q = (Inr None, changed key val q)"
proof -
  have k: "the (pairs_by_K q) = key_index q"
    using pq_inv_indexes(1) [OF assms(1)] by simp
  have ne: "\<not> empty_pq q"
    using assms(2) pq_inv_indexes(1,2) [OF assms(1)]
    by (auto simp: empty_pq_def size_pq_def isValid_def)
  from changeValue_cases [OF assms(1), of ord None key val] show ?thesis
    using assms(2) ne unfolding k by (auto simp: pending_None)
qed

lemma changeValue_None_absent:
  assumes "pq_inv q" and "\<not> empty_pq q" and "key \<notin> fst ` set (key_index q)"
  shows "changeValue ord None key val q = (Inl PQNotFoundEx, q)"
proof -
  from assms(1,2) obtain ks x xs where kv: "pairs_by_K q = Some ks" "pairs_by_V q = Some (x # xs)"
    "ordered CompByFst ks" "ordered CompBySnd (x # xs)" "mset ks = mset (x # xs)" "ks \<noteq> []"
    by (rule nonempty_indexes)
  have mv: "minValue q = Inr (snd x)"
    by (rule minValue_nonempty [OF kv(1,2,6)])
  have "\<forall>p \<in> set ks. fst p \<noteq> key"
    using assms(3) by (auto simp: key_index_valid [OF kv(1)])
  from lower_bound_absent [OF this, of "snd x"] show ?thesis
    by (auto simp: changeValue_unfold [OF mv] mv kv)
qed

lemma removed_pair_is_least:
  assumes "pq_inv q" and "key \<in> fst ` set (key_index q)"
  shows "the (pairs_by_K q) !
           ms_lower_bound CompByFst (key, snd (hd (the (pairs_by_V q)))) (the (pairs_by_K q)) =
         (key, least_value_of key (key_index q))"
    and "(key, least_value_of key (key_index q)) \<in> set (key_index q)"
proof -
  have ne: "\<not> empty_pq q"
    using assms(2) pq_inv_indexes(1,2) [OF assms(1)]
    by (auto simp: empty_pq_def size_pq_def isValid_def)
  from assms(1) ne obtain ks x xs where kv: "pairs_by_K q = Some ks" "pairs_by_V q = Some (x # xs)"
    "ordered CompByFst ks" "ordered CompBySnd (x # xs)" "mset ks = mset (x # xs)" "ks \<noteq> []"
    by (rule nonempty_indexes)
  have ki: "key_index q = ks" by (rule key_index_valid [OF kv(1)])
  have least: "\<forall>p \<in> set ks. snd x \<le> snd p"
    using value_index_head_least [OF kv(4)] kv(5) by (metis mset_eq_setD)
  let ?j = "ms_lower_bound CompByFst (key, snd x) ks"
  from assms(2) ki obtain p where p: "p \<in> set ks" "fst p = key" by auto
  note lb = lower_bound_present [OF kv(3) least]
  have jlt: "?j < length ks" by (rule lb(1) [OF p])
  have jkey: "fst (ks ! ?j) = key" by (rule lb(2) [OF p])
  have jin: "ks ! ?j \<in> set ks" using jlt by simp
  let ?S = "set (map snd (filter (\<lambda>p. fst p = key) ks))"
  have "Min ?S = snd (ks ! ?j)"
  proof (rule Min_eqI)
    show "finite ?S" by simp
    show "snd (ks ! ?j) \<in> ?S" using jin jkey by force
    fix y
    assume "y \<in> ?S"
    then obtain p' where "p' \<in> set ks" "fst p' = key" "y = snd p'" by auto
    then show "snd (ks ! ?j) \<le> y" using lb(3) [of p'] by simp
  qed
  then have eq: "ks ! ?j = (key, least_value_of key ks)"
    using jkey by (simp add: least_value_of_def prod_eq_iff)
  then show "the (pairs_by_K q) !
           ms_lower_bound CompByFst (key, snd (hd (the (pairs_by_V q)))) (the (pairs_by_K q)) =
         (key, least_value_of key (key_index q))"
    by (simp add: kv ki)
  from eq jin show "(key, least_value_of key (key_index q)) \<in> set (key_index q)"
    by (simp add: ki)
qed

lemma changed_entries:
  assumes "pq_inv q" and "key \<in> fst ` set (key_index q)"
  shows "mset (key_index (changed key val q)) =
           add_mset (key, val) (mset (key_index q) - {#(key, least_value_of key (key_index q))#})"
    and "mset (value_index (changed key val q)) =
           add_mset (key, val) (mset (value_index q) - {#(key, least_value_of key (key_index q))#})"
proof -
  let ?old = "(key, least_value_of key (key_index q))"
  note ix = pq_inv_indexes [OF assms(1)]
  note old = removed_pair_is_least [OF assms]
  have c: "changed key val q = erased ?old (inserted key val q)"
    unfolding changed_def old(1) ..
  have oldv: "?old \<in> set (value_index q)"
    using old(2) ix(5) by (metis mset_eq_setD)
  have in1: "?old \<in> set (the (pairs_by_K (inserted key val q)))"
    using old(2) by (simp add: pairs_by_K_inserted ix(1) set_ms_insert)
  note er = pq_inv_erased [OF pq_inv_inserted [OF assms(1)] in1]
  note ix' = pq_inv_indexes(1,2) [OF er(1)]
  have "mset (key_index (changed key val q)) = add_mset (key, val) (mset (key_index q)) - {#?old#}"
    using er(2) by (simp add: c ix' pairs_by_K_inserted ix(1) mset_ms_insert)
  then show "mset (key_index (changed key val q)) = add_mset (key, val) (mset (key_index q) - {#?old#})"
    using old(2) by simp
  have "mset (value_index (changed key val q)) = add_mset (key, val) (mset (value_index q)) - {#?old#}"
    using er(3) by (simp add: c ix' pairs_by_V_inserted ix(2) mset_ms_insert)
  then show "mset (value_index (changed key val q)) = add_mset (key, val) (mset (value_index q) - {#?old#})"
    using oldv by simp
qed

lemma pq_inv_changed_index:
  assumes "pq_inv q" and "key \<in> fst ` set (key_index q)"
  shows "pq_inv (changed key val q)"
  using pq_inv_changed [OF assms(1), of key val] assms(2) pq_inv_indexes(1) [OF assms(1)] by simp

lemma example_has_key_1: "1 \<in> fst ` set (key_index example_queue)"
  by (simp add: key_index_def example_queue_def)

lemma ordered_head_least:
  assumes "strict_total cmp" and "ordered cmp (x # xs)" and "y \<in> set (x # xs)"
    and "\<forall>z \<in> set (x # xs). z \<noteq> y \<longrightarrow> cmp y z"
  shows "x = y"
proof (rule ccontr)
  assume "x \<noteq> y"
  then have "cmp y x" and "y \<in> set xs" using assms(3,4) by auto
  moreover have "\<not> cmp y x" using assms(2) \<open>y \<in> set xs\<close> by (simp add: ordered_def)
  ultimately show False by simp
qed

lemma insert_pq_None_index:
  assumes "pq_inv q"
  shows "insert_pq None key val q = (Inr None, inserted key val q)"
    and "pq_inv (inserted key val q)"
    and "mset (key_index (inserted key val q)) = add_mset (key, val) (mset (key_index q))"
    and "mset (value_index (inserted key val q)) = add_mset (key, val) (mset (value_index q))"
    and "size_pq (inserted key val q) = Suc (size_pq q)"
proof -
  note ix = pq_inv_indexes [OF assms]
  show "insert_pq None key val q = (Inr None, inserted key val q)"
    by (rule insert_pq_None [OF pq_inv_isValid [OF assms]])
  show "pq_inv (inserted key val q)" by (rule pq_inv_inserted [OF assms])
  show "mset (key_index (inserted key val q)) = add_mset (key, val) (mset (key_index q))"
    using ix(1) by (simp add: key_index_valid [OF pairs_by_K_inserted] mset_ms_insert)
  show "mset (value_index (inserted key val q)) = add_mset (key, val) (mset (value_index q))"
    using ix(2) by (simp add: value_index_valid [OF pairs_by_V_inserted] mset_ms_insert)
  show "size_pq (inserted key val q) = Suc (size_pq q)"
    by (rule size_pq_inserted [OF pq_inv_isValid [OF assms]])
qed

lemma minKey_least:
  assumes "pq_inv q" and "(key, val) \<in> set (value_index q)"
    and "\<forall>p \<in> set (value_index q). p \<noteq> (key, val) \<longrightarrow> val < snd p"
  shows "minKey q = Inr key"
proof -
  note ix = pq_inv_indexes [OF assms(1)]
  from assms(2) obtain x xs where vs: "value_index q = x # xs"
    by (cases "value_index q") auto
  have "key_index q \<noteq> []" using ix(5) vs by auto
  then have ne: "\<not> empty_pq q"
    using ix(1,2) by (simp add: empty_pq_def size_pq_def isValid_def)
  have "\<forall>z \<in> set (x # xs). z \<noteq> (key, val) \<longrightarrow> CompBySnd (key, val) z"
    using assms(3) vs by (auto simp: CompBySnd_def)
  from ordered_head_least [OF strict_total_CompBySnd _ _ this] have "x = (key, val)"
    using ix(4) assms(2) vs by simp
  then show ?thesis using ne ix(2) vs by (simp add: minKey_def)
qed

lemma merge_None:
  assumes "this \<noteq> queue" and "pq_inv (h this)" and "pq_inv (h queue)"
  shows "merge None this queue h = (Inr None, merged this queue h)"
  using merge_cases [OF assms(1) pq_inv_isValid [OF assms(2)] pq_inv_isValid [OF assms(3)], of None]
  by (auto simp: pending_None)

lemma merged_this_index:
  assumes "this \<noteq> queue" and "pq_inv (h this)" and "pq_inv (h queue)"
  shows "mset (key_index (merged this queue h this)) = mset (key_index (h this)) + mset (key_index (h queue))"
    and "mset (value_index (merged this queue h this)) = mset (value_index (h this)) + mset (value_index (h queue))"
proof -
  note m = merged_this [OF assms]
  note a = pq_inv_indexes(1,2) [OF assms(2)]
  note b = pq_inv_indexes(1,2) [OF assms(3)]
  note c = pq_inv_indexes(1,2) [OF m(1)]
  show "mset (key_index (merged this queue h this)) = mset (key_index (h this)) + mset (key_index (h queue))"
    using m(2) a(1) b(1) c(1) by simp
  show "mset (value_index (merged this queue h this)) = mset (value_index (h this)) + mset (value_index (h queue))"
    using m(3) a(2) b(2) c(2) by simp
qed

lemma merged_uncleared_index:
  assumes "this \<noteq> queue" and "pq_inv (h this)" and "pq_inv (h queue)"
  shows "merged_uncleared this queue h queue = h queue"
    and "mset (key_index (merged_uncleared this queue h this)) =
           mset (key_index (h this)) + mset (key_index (h queue))"
    and "mset (value_index (merged_uncleared this queue h this)) =
           mset (value_index (h this)) + mset (value_index (h queue))"
    and "size_pq (merged_uncleared this queue h this) = size_pq (h this) + size_pq (h queue)"
  using assms(1) merged_this_index [OF assms] merged_this(4) [OF assms]
  by (simp_all add: merged_uncleared_this merged_uncleared_other)

lemma empty_pq_cleared: "empty_pq (cleared q)"
  by (simp add: empty_pq_def size_pq_cleared)

subsection \<open>The accessors and operator==\<close>

lemma accessor_throws_iff_empty:
  "(minValue q = Inl PQEmptyEx) = empty_pq q" "(maxValue q = Inl PQEmptyEx) = empty_pq q"
  "(minKey q = Inl PQEmptyEx) = empty_pq q" "(maxKey q = Inl PQEmptyEx) = empty_pq q"
  by (auto simp: minValue_def maxValue_def minKey_def maxKey_def split: option.splits list.splits)

lemma accessors_nonempty:
  assumes "pq_inv q" and "\<not> empty_pq q"
  shows "minValue q = Inr (snd (hd (value_index q)))" and "minKey q = Inr (fst (hd (value_index q)))"
    and "maxValue q = Inr (snd (last (value_index q)))" and "maxKey q = Inr (fst (last (value_index q)))"
    and "hd (value_index q) \<in> set (key_index q)" and "last (value_index q) \<in> set (key_index q)"
    and "\<forall>p \<in> set (key_index q). snd (hd (value_index q)) \<le> snd p \<and> snd p \<le> snd (last (value_index q))"
proof -
  from assms obtain ks x xs where kv: "pairs_by_K q = Some ks" "pairs_by_V q = Some (x # xs)"
    "ordered CompByFst ks" "ordered CompBySnd (x # xs)" "mset ks = mset (x # xs)" "ks \<noteq> []"
    by (rule nonempty_indexes)
  have ki: "key_index q = ks" by (rule key_index_valid [OF kv(1)])
  have vi: "value_index q = x # xs" by (rule value_index_valid [OF kv(2)])
  have sets: "set ks = set (x # xs)" using kv(5) by (rule mset_eq_setD)
  show "minValue q = Inr (snd (hd (value_index q)))"
    using assms(2) by (simp add: minValue_def kv(2) vi)
  show "minKey q = Inr (fst (hd (value_index q)))"
    using assms(2) by (simp add: minKey_def kv(2) vi)
  show "maxValue q = Inr (snd (last (value_index q)))"
    using assms(2) by (simp add: maxValue_def kv(2) vi)
  show "maxKey q = Inr (fst (last (value_index q)))"
    using assms(2) by (simp add: maxKey_def kv(2) vi)
  show "hd (value_index q) \<in> set (key_index q)"
    unfolding ki vi sets by simp
  have "last (x # xs) \<in> set (x # xs)" by (rule last_in_set) simp
  then show "last (value_index q) \<in> set (key_index q)"
    unfolding ki vi sets .
  show "\<forall>p \<in> set (key_index q). snd (hd (value_index q)) \<le> snd p \<and> snd p \<le> snd (last (value_index q))"
    unfolding ki vi sets
    using value_index_head_least [OF kv(4)] value_index_last_greatest [OF kv(4)]
    by (simp del: last.simps)
qed

lemma example_queue_not_empty: "\<not> empty_pq example_queue"
  by (simp add: empty_pq_def size_pq_def isValid_def example_queue_def)

lemma operator_eq_None:
  "operator_eq None a b =
     Inr (size_pq a = size_pq b \<and>
          (\<forall>i < size_pq a. fst (key_index a ! i) = fst (key_index b ! i) \<and>
                           snd (key_index a ! i) = snd (key_index b ! i)))"
proof (cases "size_pq a = size_pq b")
  case False
  then show ?thesis by (simp add: operator_eq_def)
next
  case eq: True
  show ?thesis
  proof (cases "size_pq a = 0")
    case True
    then show ?thesis using eq by (simp add: operator_eq_def)
  next
    case False
    then obtain ks where a: "pairs_by_K a = Some ks" "size_pq a = length ks"
      by (auto simp: size_pq_def isValid_def split: if_splits)
    from False eq obtain ks' where b: "pairs_by_K b = Some ks'" "size_pq b = length ks'"
      by (auto simp: size_pq_def isValid_def split: if_splits)
    have len: "length ks = length ks'" using eq a(2) b(2) by simp
    have "(ks = ks') = (\<forall>i < length ks. fst (ks ! i) = fst (ks' ! i) \<and> snd (ks ! i) = snd (ks' ! i))"
      using len by (auto simp: list_eq_iff_nth_eq prod_eq_iff)
    then show ?thesis
      using False eq len
      by (simp add: operator_eq_def a b key_index_valid [OF a(1)] key_index_valid [OF b(1)] eq_loop_None)
  qed
qed

lemma insert_all_result:
  assumes "pq_inv q"
  shows "\<exists>q'. insert_all ps q = Inr q' \<and> pq_inv q' \<and> mset (key_index q') = mset (key_index q) + mset ps"
  using assms
proof (induction ps arbitrary: q)
  case Nil
  then show ?case by simp
next
  case (Cons p ps)
  note ins = insert_pq_None_index [OF Cons.prems, of "fst p" "snd p"]
  from Cons.IH [OF ins(2)] obtain q' where q': "insert_all ps (inserted (fst p) (snd p) q) = Inr q'"
    "pq_inv q'" "mset (key_index q') = mset (key_index (inserted (fst p) (snd p) q)) + mset ps"
    by blast
  show ?case using q' ins(1,3) by simp
qed

lemma same_entries_same_key_index:
  assumes "pq_inv a" and "pq_inv b" and "mset (key_index a) = mset (key_index b)"
  shows "key_index a = key_index b"
  by (rule ordered_unique [OF strict_total_CompByFst pq_inv_indexes(3) [OF assms(1)]
        pq_inv_indexes(3) [OF assms(2)] assms(3)])

lemma operator_eq_same_key_index:
  assumes "pq_inv a" and "pq_inv b" and "key_index a = key_index b"
  shows "operator_eq None a b = Inr True"
proof -
  have "size_pq a = size_pq b"
    using size_pq_valid [OF pq_inv_indexes(1,2) [OF assms(1)]]
      size_pq_valid [OF pq_inv_indexes(1,2) [OF assms(2)]] assms(3) by simp
  then show ?thesis using assms(3) by (simp add: operator_eq_None)
qed

subsection \<open>The entries after deleteMin and deleteMax; sequences\<close>

lemma delete_empty:
  "empty_pq q \<Longrightarrow> deleteMin f q = (Inr f, q)" "empty_pq q \<Longrightarrow> deleteMax f q = (Inr f, q)"
  by (simp_all add: deleteMin_def deleteMax_def)

lemma deleteMin_None:
  assumes "pq_inv q" and "\<not> empty_pq q"
  shows "deleteMin None q = (Inr None, deletedMin q)"
  by (simp add: deleteMin_nonempty [OF assms])

lemma deleteMax_None:
  assumes "pq_inv q" and "\<not> empty_pq q"
  shows "deleteMax None q = (Inr None, deletedMax q)"
  by (simp add: deleteMax_nonempty [OF assms])

lemma deletedMin_entries:
  assumes "pq_inv q" and "\<not> empty_pq q"
  shows "mset (key_index (deletedMin q)) = mset (key_index q) - {#hd (value_index q)#}"
    and "mset (value_index (deletedMin q)) = mset (value_index q) - {#hd (value_index q)#}"
    and "value_index (deletedMin q) = tl (value_index q)"
    and "Suc (size_pq (deletedMin q)) = size_pq q"
proof -
  from assms obtain ks x xs where kv: "pairs_by_K q = Some ks" "pairs_by_V q = Some (x # xs)"
    "ordered CompByFst ks" "ordered CompBySnd (x # xs)" "mset ks = mset (x # xs)" "ks \<noteq> []"
    by (rule nonempty_indexes)
  have ki: "key_index q = ks" by (rule key_index_valid [OF kv(1)])
  have vi: "value_index q = x # xs" by (rule value_index_valid [OF kv(2)])
  have "x \<in> set ks" using kv(5) by (metis list.set_intros(1) mset_eq_setD)
  note fd = find_in_key_index [OF kv(3) this]
  have kd: "key_index (deletedMin q) = ms_erase (ms_find CompByFst x ks) ks"
    by (simp add: key_index_def deletedMin_def kv)
  have vd: "value_index (deletedMin q) = xs"
    by (simp add: value_index_def deletedMin_def kv)
  show "mset (key_index (deletedMin q)) = mset (key_index q) - {#hd (value_index q)#}"
    unfolding kd ki vi using fd by (simp add: mset_ms_erase)
  show "mset (value_index (deletedMin q)) = mset (value_index q) - {#hd (value_index q)#}"
    unfolding vd vi by simp
  show "value_index (deletedMin q) = tl (value_index q)"
    unfolding vd vi by simp
  show "Suc (size_pq (deletedMin q)) = size_pq q"
    using fd(1) length_ms_erase [OF fd(1)]
    by (simp add: size_pq_def isValid_def deletedMin_def kv)
qed

lemma deletedMax_entries:
  assumes "pq_inv q" and "\<not> empty_pq q"
  shows "mset (key_index (deletedMax q)) = mset (key_index q) - {#last (value_index q)#}"
    and "mset (value_index (deletedMax q)) = mset (value_index q) - {#last (value_index q)#}"
    and "Suc (size_pq (deletedMax q)) = size_pq q"
proof -
  from assms obtain ks x xs where kv: "pairs_by_K q = Some ks" "pairs_by_V q = Some (x # xs)"
    "ordered CompByFst ks" "ordered CompBySnd (x # xs)" "mset ks = mset (x # xs)" "ks \<noteq> []"
    by (rule nonempty_indexes)
  let ?vs = "x # xs"
  have vi: "value_index q = ?vs" by (rule value_index_valid [OF kv(2)])
  have "last ?vs \<in> set ?vs" by (rule last_in_set) simp
  then have "last ?vs \<in> set ks" using kv(5) by (metis mset_eq_setD)
  note fd = find_in_key_index [OF kv(3) this]
  have kd: "key_index (deletedMax q) = ms_erase (ms_find CompByFst (last ?vs) ks) ks"
    by (simp add: key_index_def deletedMax_def kv del: last.simps)
  have vd: "value_index (deletedMax q) = butlast ?vs"
    by (simp add: value_index_def deletedMax_def kv del: butlast.simps)
  show "mset (key_index (deletedMax q)) = mset (key_index q) - {#last (value_index q)#}"
    unfolding kd vi using fd by (simp add: key_index_valid [OF kv(1)] mset_ms_erase del: last.simps)
  have "mset (butlast ?vs) = mset ?vs - {#last ?vs#}"
    by (metis add_mset_remove_trivial append_butlast_last_id list.distinct(1) mset.simps(2) mset_append
        union_mset_add_mset_right add.right_neutral mset.simps(1))
  then show "mset (value_index (deletedMax q)) = mset (value_index q) - {#last (value_index q)#}"
    unfolding vd vi .
  show "Suc (size_pq (deletedMax q)) = size_pq q"
    using fd(1) length_ms_erase [OF fd(1)]
    by (simp add: size_pq_def isValid_def deletedMax_def kv del: last.simps)
qed

lemma minValue_after_deleteMin:
  assumes "pq_inv q" and "\<not> empty_pq q" and "\<not> empty_pq (deletedMin q)"
  shows "snd (hd (value_index q)) \<le> snd (hd (value_index (deletedMin q)))"
proof -
  note inv' = pq_inv_deletedMin [OF assms(1,2)]
  note d = deletedMin_entries [OF assms(1,2)]
  have "hd (value_index (deletedMin q)) \<in> set (key_index (deletedMin q))"
    by (rule accessors_nonempty(5) [OF inv' assms(3)])
  then have "hd (value_index (deletedMin q)) \<in># mset (key_index q) - {#hd (value_index q)#}"
    using d(1) by (metis set_mset_mset)
  then have "hd (value_index (deletedMin q)) \<in> set (key_index q)"
    by (metis in_diffD set_mset_mset)
  then show ?thesis using accessors_nonempty(7) [OF assms(1,2)] by blast
qed

lemma deleteMin_times_result:
  assumes "pq_inv q" and "n \<le> size_pq q"
  shows "\<exists>q'. deleteMin_times n q = Inr q' \<and> pq_inv q' \<and> size_pq q' + n = size_pq q \<and>
           (n < size_pq q \<longrightarrow> snd (hd (value_index q)) \<le> snd (hd (value_index q')))"
  using assms
proof (induction n arbitrary: q)
  case 0
  then show ?case by simp
next
  case (Suc n)
  from Suc.prems(2) have ne: "\<not> empty_pq q" by (simp add: empty_pq_def)
  let ?q1 = "deletedMin q"
  note inv1 = pq_inv_deletedMin [OF Suc.prems(1) ne]
  note d = deletedMin_entries [OF Suc.prems(1) ne]
  have le: "n \<le> size_pq ?q1" using Suc.prems(2) d(4) by simp
  from Suc.IH [OF inv1 le] obtain q' where q': "deleteMin_times n ?q1 = Inr q'" "pq_inv q'"
    "size_pq q' + n = size_pq ?q1"
    "n < size_pq ?q1 \<longrightarrow> snd (hd (value_index ?q1)) \<le> snd (hd (value_index q'))"
    by blast
  have run: "deleteMin_times (Suc n) q = Inr q'"
    by (simp add: deleteMin_None [OF Suc.prems(1) ne] q'(1))
  have size: "size_pq q' + Suc n = size_pq q" using q'(3) d(4) by simp
  have mono: "snd (hd (value_index q)) \<le> snd (hd (value_index q'))" if "Suc n < size_pq q"
  proof -
    from that d(4) have lt: "n < size_pq ?q1" by simp
    then have "\<not> empty_pq ?q1" by (simp add: empty_pq_def)
    from minValue_after_deleteMin [OF Suc.prems(1) ne this] q'(4) lt show ?thesis by simp
  qed
  show ?case using run q'(2) size mono by blast
qed

lemma perform_result:
  assumes "pq_inv q" and "merge_target_ok x"
  shows "\<exists>q'. perform x q = Inr q' \<and> pq_inv q' \<and>
           size_pq q' + taken_out x q = size_pq q + inserts [x]"
proof (cases x)
  case (Insert key val)
  then show ?thesis
    using insert_pq_None_index(1,2,5) [OF assms(1), of key val] by simp
next
  case DeleteMin
  show ?thesis
  proof (cases "empty_pq q")
    case True
    then show ?thesis using DeleteMin assms(1) by (simp add: delete_empty)
  next
    case False
    then show ?thesis
      using DeleteMin deleteMin_None [OF assms(1) False] pq_inv_deletedMin [OF assms(1) False]
        deletedMin_entries(4) [OF assms(1) False]
      by simp
  qed
next
  case DeleteMax
  show ?thesis
  proof (cases "empty_pq q")
    case True
    then show ?thesis using DeleteMax assms(1) by (simp add: delete_empty)
  next
    case False
    then show ?thesis
      using DeleteMax deleteMax_None [OF assms(1) False] pq_inv_deletedMax [OF assms(1) False]
        deletedMax_entries(3) [OF assms(1) False]
      by simp
  qed
next
  case (MergedInto other)
  let ?h = "\<lambda>a::nat. if a = 0 then other else q"
  have ne: "(0::nat) \<noteq> 1" by simp
  have a: "pq_inv (?h 0)" using assms(2) MergedInto by simp
  have b: "pq_inv (?h 1)" using assms(1) by simp
  have "merge None 0 1 ?h = (Inr None, merged 0 1 ?h)"
    by (rule merge_None [OF ne a b])
  moreover have "merged 0 1 ?h 1 = cleared q"
    by (simp add: merged_queue)
  ultimately show ?thesis
    using MergedInto by (simp add: pq_inv_cleared size_pq_cleared)
qed

lemma run_result:
  assumes "pq_inv q" and "\<forall>x \<in> set xs. merge_target_ok x"
  shows "\<exists>q'. run xs q = Inr q' \<and> pq_inv q' \<and> size_pq q' + removals xs q = size_pq q + inserts xs"
  using assms
proof (induction xs arbitrary: q)
  case Nil
  then show ?case by simp
next
  case (Cons x xs)
  from Cons.prems(2) have ok: "merge_target_ok x" "\<forall>x \<in> set xs. merge_target_ok x" by simp_all
  from perform_result [OF Cons.prems(1) ok(1)] obtain q1 where
    q1: "perform x q = Inr q1" "pq_inv q1" "size_pq q1 + taken_out x q = size_pq q + inserts [x]"
    by blast
  from Cons.IH [OF q1(2) ok(2)] obtain q' where
    q': "run xs q1 = Inr q'" "pq_inv q'" "size_pq q' + removals xs q1 = size_pq q1 + inserts xs"
    by blast
  have i: "inserts (x # xs) = inserts [x] + inserts xs"
    by (cases x) simp_all
  show ?case using q1 q' i by simp
qed

lemma pq_inv_single_queue: "pq_inv (single_queue k v)"
  by (simp add: pq_inv_def single_queue_def ordered_def)

lemma example_operations_ok: "\<forall>x \<in> set example_operations. merge_target_ok x"
  by (simp add: example_operations_def pq_inv_single_queue)

subsection \<open>Steps that throw\<close>

lemma insert_pq_exact:
  assumes "isValid q"
  shows "n < 5 \<Longrightarrow> fst (insert_pq (Some n) key val q) = Inl ElementEx"
    and "5 \<le> n \<Longrightarrow> insert_pq (Some n) key val q = (Inr (Some (n - 5)), inserted key val q)"
proof -
  from assms obtain ks vs where kv: "pairs_by_K q = Some ks" "pairs_by_V q = Some vs"
    by (auto simp: isValid_def)
  show "n < 5 \<Longrightarrow> fst (insert_pq (Some n) key val q) = Inl ElementEx"
    unfolding insert_pq_def
    by (simp add: kv Let_def attempt_Some)
  have five: "n - Suc 0 - Suc 0 - Suc 0 - Suc 0 - Suc 0 = n - 5" by simp
  show "5 \<le> n \<Longrightarrow> insert_pq (Some n) key val q = (Inr (Some (n - 5)), inserted key val q)"
    unfolding insert_pq_def inserted_def
    by (auto simp: kv Let_def attempt_Some find_CompByFst_found five)
qed

lemma range_insert_exact:
  "n < length ys \<Longrightarrow> fst (range_insert cmp ys (Some n) xs) = Inl ElementEx"
  "length ys \<le> n \<Longrightarrow>
     range_insert cmp ys (Some n) xs = (Inr (Some (n - length ys)), range_inserted cmp ys xs)"
proof (induction ys arbitrary: n xs)
  case Nil
  { case 1 then show ?case by simp }
  { case 2 then show ?case by (simp add: range_inserted_def) }
next
  case (Cons y ys)
  { case 1
    show ?case
    proof (cases n)
      case 0
      then show ?thesis by simp
    next
      case (Suc m)
      then show ?thesis using Cons.IH(1) [of m] 1 by simp
    qed }
  { case 2
    then obtain m where m: "n = Suc m" by (cases n) auto
    then show ?case using Cons.IH(2) [of m] 2 by (simp add: range_inserted_def) }
qed

lemma clear_exact:
  shows "m < 2 \<Longrightarrow> clear (Some m) q = (Inl Terminated, q)"
    and "2 \<le> m \<Longrightarrow> clear (Some m) q = (Inr (Some (m - 2)), cleared q)"
  by (auto simp: clear_def cleared_def default_construct_def default_ctor_def attempt_Some)

lemma merge_steps:
  assumes "this \<noteq> queue" and "isValid (h this)" and "isValid (h queue)"
    and "length (key_index (h queue)) = length (value_index (h queue))"
  shows "n < 2 + 2 * size_pq (h queue) \<Longrightarrow> fst (merge (Some n) this queue h) = Inl ElementEx"
    and "2 + 2 * size_pq (h queue) \<le> n \<Longrightarrow> n < 4 + 2 * size_pq (h queue) \<Longrightarrow>
           fst (merge (Some n) this queue h) = Inl Terminated"
    and "4 + 2 * size_pq (h queue) \<le> n \<Longrightarrow>
           fst (merge (Some n) this queue h) = Inr (Some (n - (4 + 2 * size_pq (h queue))))"
proof -
  from assms(2) obtain ks vs where kv: "pairs_by_K (h this) = Some ks" "pairs_by_V (h this) = Some vs"
    by (auto simp: isValid_def)
  from assms(3) obtain qks qvs where qkv: "pairs_by_K (h queue) = Some qks" "pairs_by_V (h queue) = Some qvs"
    by (auto simp: isValid_def)
  have len: "length qks = length qvs"
    using assms(4) by (simp add: key_index_def value_index_def qkv)
  have sz: "size_pq (h queue) = length qks"
    by (simp add: size_pq_def isValid_def qkv)
  have copy: "copy_ctor (Some n) (h this) =
        Inr (Some (n - 2), \<lparr>pairs_by_K = Some ks, pairs_by_V = Some vs, inserted_K = 0, inserted_V = 0\<rparr>)"
    if "2 \<le> n"
    using that by (auto simp: copy_ctor_def kv attempt_Some)
  have both: "range_insert CompByFst qks (Some (n - 2)) ks =
          (Inr (Some (n - 2 - length qks)), range_inserted CompByFst qks ks) \<and>
        range_insert CompBySnd qvs (Some (n - 2 - length qks)) vs =
          (Inr (Some (n - 2 - length qks - length qvs)), range_inserted CompBySnd qvs vs)"
    if "2 + 2 * length qks \<le> n"
    using that len by (intro conjI range_insert_exact(2)) simp_all
  show "fst (merge (Some n) this queue h) = Inl ElementEx" if n: "n < 2 + 2 * size_pq (h queue)"
  proof (cases "n < 2")
    case True
    then show ?thesis using assms(1)
      by (simp add: merge_def copy_ctor_def kv attempt_Some)
  next
    case False
    then have c: "copy_ctor (Some n) (h this) =
        Inr (Some (n - 2), \<lparr>pairs_by_K = Some ks, pairs_by_V = Some vs, inserted_K = 0, inserted_V = 0\<rparr>)"
      by (intro copy) simp
    show ?thesis
    proof (cases "n - 2 < length qks")
      case True
      from range_insert_exact(1) [OF True, of CompByFst ks] show ?thesis
        using assms(1)
        by (cases "range_insert CompByFst qks (Some (n - 2)) ks") (simp add: merge_def c kv qkv)
    next
      case k: False
      then have rk: "range_insert CompByFst qks (Some (n - 2)) ks =
          (Inr (Some (n - 2 - length qks)), range_inserted CompByFst qks ks)"
        by (intro range_insert_exact(2)) simp
      have "n - 2 - length qks < length qvs" using n False k len sz by simp
      from range_insert_exact(1) [OF this, of CompBySnd vs] show ?thesis
        using assms(1)
        by (cases "range_insert CompBySnd qvs (Some (n - 2 - length qks)) vs")
           (simp add: merge_def c kv qkv rk)
    qed
  qed
  show "fst (merge (Some n) this queue h) = Inl Terminated"
    if lo: "2 + 2 * size_pq (h queue) \<le> n" and hi: "n < 4 + 2 * size_pq (h queue)"
  proof -
    from lo have c: "copy_ctor (Some n) (h this) =
        Inr (Some (n - 2), \<lparr>pairs_by_K = Some ks, pairs_by_V = Some vs, inserted_K = 0, inserted_V = 0\<rparr>)"
      by (intro copy) simp
    from lo sz have r: "range_insert CompByFst qks (Some (n - 2)) ks =
          (Inr (Some (n - 2 - length qks)), range_inserted CompByFst qks ks)"
        "range_insert CompBySnd qvs (Some (n - 2 - length qks)) vs =
          (Inr (Some (n - 2 - length qks - length qvs)), range_inserted CompBySnd qvs vs)"
      using both by simp_all
    have "n - 2 - length qks - length qvs < 2" using hi sz len by simp
    then have "fst (clear (Some (n - 2 - length qks - length qvs)) (h queue)) = Inl Terminated"
      by (simp add: clear_exact(1))
    then show ?thesis using assms(1) r(2)
      by (cases "clear (Some (n - 2 - length qks - length qvs)) (h queue)")
         (simp add: merge_def c kv qkv r(1))
  qed
  show "fst (merge (Some n) this queue h) = Inr (Some (n - (4 + 2 * size_pq (h queue))))"
    if lo: "4 + 2 * size_pq (h queue) \<le> n"
  proof -
    from lo have c: "copy_ctor (Some n) (h this) =
        Inr (Some (n - 2), \<lparr>pairs_by_K = Some ks, pairs_by_V = Some vs, inserted_K = 0, inserted_V = 0\<rparr>)"
      by (intro copy) simp
    from lo sz have r: "range_insert CompByFst qks (Some (n - 2)) ks =
          (Inr (Some (n - 2 - length qks)), range_inserted CompByFst qks ks)"
        "range_insert CompBySnd qvs (Some (n - 2 - length qks)) vs =
          (Inr (Some (n - 2 - length qks - length qvs)), range_inserted CompBySnd qvs vs)"
      using both by simp_all
    have m: "2 \<le> n - 2 - length qks - length qvs" using lo sz len by simp
    have e: "n - 2 - length qks - length qvs - 2 = n - (4 + 2 * size_pq (h queue))"
      using sz len by simp
    have "fst (clear (Some (n - 2 - length qks - length qvs)) (h queue)) =
        Inr (Some (n - (4 + 2 * size_pq (h queue))))"
      unfolding clear_exact(2) [OF m] e by simp
    then show ?thesis using assms(1) r(2)
      by (cases "clear (Some (n - 2 - length qks - length qvs)) (h queue)")
         (simp add: merge_def c kv qkv r(1))
  qed
qed

lemma merge_throws:
  assumes "this \<noteq> queue" and "pq_inv (h this)" and "pq_inv (h queue)"
    and "n < 2 + 2 * size_pq (h queue)"
  shows "merge (Some n) this queue h = (Inl ElementEx, h)"
proof -
  have len: "length (key_index (h queue)) = length (value_index (h queue))"
    using pq_inv_indexes(5) [OF assms(3)] by (rule mset_eq_length)
  note v = pq_inv_isValid [OF assms(2)] pq_inv_isValid [OF assms(3)]
  from merge_steps(1) [OF assms(1) v len assms(4)] merge_cases [OF assms(1) v, of "Some n"]
  show ?thesis by auto
qed

lemma merge_terminates:
  assumes "this \<noteq> queue" and "pq_inv (h this)" and "pq_inv (h queue)"
    and "2 + 2 * size_pq (h queue) \<le> n" and "n < 4 + 2 * size_pq (h queue)"
  shows "merge (Some n) this queue h = (Inl Terminated, merged_uncleared this queue h)"
proof -
  have len: "length (key_index (h queue)) = length (value_index (h queue))"
    using pq_inv_indexes(5) [OF assms(3)] by (rule mset_eq_length)
  note v = pq_inv_isValid [OF assms(2)] pq_inv_isValid [OF assms(3)]
  from merge_steps(2) [OF assms(1) v len assms(4,5)] merge_cases [OF assms(1) v, of "Some n"]
  show ?thesis by auto
qed

lemma merge_returns:
  assumes "this \<noteq> queue" and "pq_inv (h this)" and "pq_inv (h queue)"
    and "4 + 2 * size_pq (h queue) \<le> n"
  shows "merge (Some n) this queue h =
           (Inr (Some (n - (4 + 2 * size_pq (h queue)))), merged this queue h)"
proof -
  have len: "length (key_index (h queue)) = length (value_index (h queue))"
    using pq_inv_indexes(5) [OF assms(3)] by (rule mset_eq_length)
  note v = pq_inv_isValid [OF assms(2)] pq_inv_isValid [OF assms(3)]
  from merge_steps(3) [OF assms(1) v len assms(4)] merge_cases [OF assms(1) v, of "Some n"]
  show ?thesis by auto
qed

lemma changeValue_throws:
  assumes inv: "pq_inv q" and present: "key \<in> fst ` set (key_index q)" and n: "n < 11"
  shows "fst (changeValue ord (Some n) key val q) = Inl ElementEx"
proof -
  have ne: "\<not> empty_pq q"
    using present pq_inv_indexes(1,2) [OF inv]
    by (auto simp: empty_pq_def size_pq_def isValid_def)
  from inv ne obtain ks x xs where kv: "pairs_by_K q = Some ks" "pairs_by_V q = Some (x # xs)"
    "ordered CompByFst ks" "ordered CompBySnd (x # xs)" "mset ks = mset (x # xs)" "ks \<noteq> []"
    by (rule nonempty_indexes)
  have ki: "key_index q = ks" by (rule key_index_valid [OF kv(1)])
  have mv: "minValue q = Inr (snd x)"
    by (rule minValue_nonempty [OF kv(1,2,6)])
  have least: "\<forall>p \<in> set ks. snd x \<le> snd p"
    using value_index_head_least [OF kv(4)] kv(5) by (metis mset_eq_setD)
  let ?j = "ms_lower_bound CompByFst (key, snd x) ks"
  from present ki obtain p where p: "p \<in> set ks" "fst p = key" by auto
  note lb = lower_bound_present [OF kv(3) least p]
  have jne: "?j \<noteq> length ks" using lb(1) by simp
  have old1: "ks ! ?j \<in> set (the (pairs_by_K (inserted key val q)))"
    using lb(1) by (simp add: pairs_by_K_inserted kv set_ms_insert)
  show ?thesis
  proof (cases "n < 4")
    case True
    then show ?thesis
      using jne lb(2) by (simp add: changeValue_unfold [OF mv] attempt_Some mv kv)
  next
    case n4: False
    have step: "changeValue ord (Some n) key val q =
        (case insert_pq (Some (n - 4)) key val q of
           (Inl e, q1) \<Rightarrow> (Inl e, q1)
         | (Inr f5, q1) \<Rightarrow> finish_change f5 (ks ! ?j) q1)"
    proof -
      have "n - Suc 0 - Suc 0 - Suc 0 - Suc 0 = n - 4" by simp
      then show ?thesis
        using n4 jne lb(2) by (simp add: changeValue_unfold [OF mv] attempt_Some mv kv)
    qed
    show ?thesis
    proof (cases "n - 4 < 5")
      case True
      from insert_pq_exact(1) [OF pq_inv_isValid [OF inv] True, of key val] show ?thesis
        by (cases "insert_pq (Some (n - 4)) key val q") (simp add: step)
    next
      case False
      then have "5 \<le> n - 4" by simp
      from insert_pq_exact(2) [OF pq_inv_isValid [OF inv] this, of key val]
      have step2: "changeValue ord (Some n) key val q =
          finish_change (Some (n - 4 - 5)) (ks ! ?j) (inserted key val q)"
        by (simp add: step)
      have "n - 4 - 5 < 2" using n by simp
      then have "finish_change (Some (n - 4 - 5)) (ks ! ?j) (inserted key val q) =
          (Inl ElementEx, rolled_back (inserted key val q))"
        using finish_change_cases [OF pq_inv_inserted [OF inv] old1, of "Some (n - 4 - 5)"]
        by (auto simp: pending_def finish_change_def inserted_def kv attempt_Some Let_def
              split: option.splits sum.splits if_splits)
      then show ?thesis by (simp add: step2)
    qed
  qed
qed

section \<open>The claims\<close>

subsection \<open>C1\<close>

text \<open>
  Claim C1 holds for \<open>insert\<close> and \<open>changeValue\<close> and fails for \<open>merge\<close>. Whatever the
  position of the throwing step, \<open>insert\<close> and \<open>changeValue\<close> on a queue that satisfies
  the invariant either return normally, and then the throwing step has not been reached
  (\<open>pending\<close>), or end with the exception and leave both indexes of the queue as they
  were before the call; \<open>changeValue\<close> has its own two exceptions besides. \<open>insert\<close> has
  five steps that may throw, \<open>changeValue\<close> of a key that is there eleven. The members
  \<open>inserted_K\<close> and \<open>inserted_V\<close> may differ after a failed \<open>insert\<close>; no public operation
  reads them before \<open>insert\<close> writes them again.

  \<open>merge\<close> of two different queues rethrows and leaves the whole store, the argument queue
  included, as it was, when the throwing step is in the backup copy of \<open>*this\<close> (two
  steps) or in one of the two range inserts (one step for every element of either index
  of the argument). The next two steps are the allocations in \<open>clear\<close>, which \<open>merge\<close>
  calls on its argument after the \<open>try\<close> block. \<open>clear\<close> is declared \<open>noexcept\<close>: a throw
  there is not rethrown, the program ends in \<open>std::terminate\<close>, and at that moment
  \<open>*this\<close> holds the entries of both queues and the argument still holds its own. The
  header's comment on \<open>merge\<close> says strong guarantee and its comment on \<open>clear\<close> says no
  throw.
\<close>

theorem merge_terminates_in_clear:
  assumes "pq_inv q" and "pq_inv (h this)" and "pq_inv (h queue)"
  shows "(case insert_pq f key val q of
            (Inl e, q') \<Rightarrow> e = ElementEx \<and> f \<noteq> None \<and>
                           pairs_by_K q' = pairs_by_K q \<and> pairs_by_V q' = pairs_by_V q
          | (Inr f', q') \<Rightarrow> pending f f') \<and>
         (case changeValue ord f key val q of
            (Inl e, q') \<Rightarrow> (e = ElementEx \<and> f \<noteq> None \<or> e = PQEmptyEx \<or> e = PQNotFoundEx) \<and>
                           pairs_by_K q' = pairs_by_K q \<and> pairs_by_V q' = pairs_by_V q
          | (Inr f', q') \<Rightarrow> pending f f') \<and>
         (case merge f this queue h of
            (Inl e, h') \<Rightarrow>
               f \<noteq> None \<and>
               (e = ElementEx \<and> h' = h \<or>
                e = Terminated \<and> this \<noteq> queue \<and> h' queue = h queue \<and>
                  mset (key_index (h' this)) = mset (key_index (h this)) + mset (key_index (h queue)) \<and>
                  mset (value_index (h' this)) = mset (value_index (h this)) + mset (value_index (h queue)))
          | (Inr f', h') \<Rightarrow> pending f f') \<and>
         (n < 5 \<longrightarrow> fst (insert_pq (Some n) key val q) = Inl ElementEx) \<and>
         (n < 11 \<longrightarrow> key \<in> fst ` set (key_index q) \<longrightarrow>
            fst (changeValue ord (Some n) key val q) = Inl ElementEx) \<and>
         (n < 2 + 2 * size_pq (h queue) \<longrightarrow> this \<noteq> queue \<longrightarrow>
            merge (Some n) this queue h = (Inl ElementEx, h)) \<and>
         (2 + 2 * size_pq (h queue) \<le> m \<longrightarrow> m < 4 + 2 * size_pq (h queue) \<longrightarrow> this \<noteq> queue \<longrightarrow>
            (case merge (Some m) this queue h of
               (r, h') \<Rightarrow>
                  r = Inl Terminated \<and> h' queue = h queue \<and>
                  mset (key_index (h' this)) = mset (key_index (h this)) + mset (key_index (h queue)) \<and>
                  mset (value_index (h' this)) = mset (value_index (h this)) + mset (value_index (h queue)) \<and>
                  size_pq (h' this) = size_pq (h this) + size_pq (h queue)))"
proof -
  note v = pq_inv_isValid [OF assms(2)] pq_inv_isValid [OF assms(3)]
  have c1: "case insert_pq f key val q of
            (Inl e, q') \<Rightarrow> e = ElementEx \<and> f \<noteq> None \<and>
                           pairs_by_K q' = pairs_by_K q \<and> pairs_by_V q' = pairs_by_V q
          | (Inr f', q') \<Rightarrow> pending f f'"
    by (rule insert_pq_guarantee [OF pq_inv_isValid [OF assms(1)]])
  have c2: "case changeValue ord f key val q of
            (Inl e, q') \<Rightarrow> (e = ElementEx \<and> f \<noteq> None \<or> e = PQEmptyEx \<or> e = PQNotFoundEx) \<and>
                           pairs_by_K q' = pairs_by_K q \<and> pairs_by_V q' = pairs_by_V q
          | (Inr f', q') \<Rightarrow> pending f f'"
    by (rule changeValue_guarantee [OF assms(1)])
  have c3: "case merge f this queue h of
            (Inl e, h') \<Rightarrow>
               f \<noteq> None \<and>
               (e = ElementEx \<and> h' = h \<or>
                e = Terminated \<and> this \<noteq> queue \<and> h' queue = h queue \<and>
                  mset (key_index (h' this)) = mset (key_index (h this)) + mset (key_index (h queue)) \<and>
                  mset (value_index (h' this)) = mset (value_index (h this)) + mset (value_index (h queue)))
          | (Inr f', h') \<Rightarrow> pending f f'"
  proof (cases "this = queue")
    case True
    then show ?thesis by (simp add: merge_def pending_refl)
  next
    case False
    note u = merged_uncleared_index [OF False assms(2,3)]
    from merge_cases [OF False v, of f] show ?thesis
      using False u(1,2,3) by auto
  qed
  have c4: "n < 5 \<longrightarrow> fst (insert_pq (Some n) key val q) = Inl ElementEx"
    using insert_pq_exact(1) [OF pq_inv_isValid [OF assms(1)], of n key val] by simp
  have c5: "n < 11 \<longrightarrow> key \<in> fst ` set (key_index q) \<longrightarrow>
            fst (changeValue ord (Some n) key val q) = Inl ElementEx"
    using changeValue_throws [OF assms(1), where n = n and key = key and val = val and ord = ord]
    by simp
  have c6: "n < 2 + 2 * size_pq (h queue) \<longrightarrow> this \<noteq> queue \<longrightarrow>
            merge (Some n) this queue h = (Inl ElementEx, h)"
    using merge_throws [where h = h and this = this and queue = queue and n = n] assms(2,3)
    by simp
  have c7: "2 + 2 * size_pq (h queue) \<le> m \<longrightarrow> m < 4 + 2 * size_pq (h queue) \<longrightarrow> this \<noteq> queue \<longrightarrow>
            (case merge (Some m) this queue h of
               (r, h') \<Rightarrow>
                  r = Inl Terminated \<and> h' queue = h queue \<and>
                  mset (key_index (h' this)) = mset (key_index (h this)) + mset (key_index (h queue)) \<and>
                  mset (value_index (h' this)) = mset (value_index (h this)) + mset (value_index (h queue)) \<and>
                  size_pq (h' this) = size_pq (h this) + size_pq (h queue))"
  proof (intro impI)
    assume a: "2 + 2 * size_pq (h queue) \<le> m" "m < 4 + 2 * size_pq (h queue)" "this \<noteq> queue"
    show "case merge (Some m) this queue h of
               (r, h') \<Rightarrow>
                  r = Inl Terminated \<and> h' queue = h queue \<and>
                  mset (key_index (h' this)) = mset (key_index (h this)) + mset (key_index (h queue)) \<and>
                  mset (value_index (h' this)) = mset (value_index (h this)) + mset (value_index (h queue)) \<and>
                  size_pq (h' this) = size_pq (h this) + size_pq (h queue)"
      unfolding merge_terminates [OF a(3) assms(2,3) a(1,2)]
      using merged_uncleared_index [OF a(3) assms(2,3)] by simp
  qed
  show ?thesis by (intro conjI c1 c2 c3 c4 c5 c6 c7)
qed

theorem merge_terminates_in_clear_witness:
  "pq_inv example_queue \<and> pq_inv (example_store 2) \<and> pq_inv (example_store 0) \<and>
   size_pq (example_store 0) = 3 \<and> size_pq (example_store 2) = Suc 0 \<and>
   fst (merge (Some 8) 2 0 example_store) = Inl Terminated \<and>
   snd (merge (Some 8) 2 0 example_store) 0 = example_store 0 \<and>
   pairs_by_K (snd (merge (Some 8) 2 0 example_store) 2) = Some [(1, 10), (1, 20), (2, 5), (3, 1)] \<and>
   pairs_by_V (snd (merge (Some 8) 2 0 example_store) 2) = Some [(3, 1), (2, 5), (1, 10), (1, 20)] \<and>
   size_pq (snd (merge (Some 8) 2 0 example_store) 2) = 4 \<and>
   fst (merge (Some 9) 2 0 example_store) = Inl Terminated \<and>
   merge (Some 4) 2 0 example_store = (Inl ElementEx, example_store) \<and>
   fst (merge (Some 10) 2 0 example_store) = Inr (Some 0) \<and>
   fst (insert_pq (Some 4) 1 7 example_queue) = Inl ElementEx \<and>
   pairs_by_K (snd (insert_pq (Some 4) 1 7 example_queue)) = pairs_by_K example_queue \<and>
   pairs_by_V (snd (insert_pq (Some 4) 1 7 example_queue)) = pairs_by_V example_queue \<and>
   fst (changeValue ValueFirst (Some 4) 1 7 example_queue) = Inl ElementEx \<and>
   pairs_by_K (snd (changeValue ValueFirst (Some 4) 1 7 example_queue)) = pairs_by_K example_queue \<and>
   pairs_by_V (snd (changeValue ValueFirst (Some 4) 1 7 example_queue)) = pairs_by_V example_queue"
proof -
  have s: "size_pq (example_store 0) = 3" "size_pq (example_store 2) = Suc 0"
    by (simp_all add: size_pq_def isValid_def example_store_def example_queue_def)
  have k: "pairs_by_K (snd (merge (Some 8) 2 0 example_store) 2) = Some [(1, 10), (1, 20), (2, 5), (3, 1)]"
    "pairs_by_V (snd (merge (Some 8) 2 0 example_store) 2) = Some [(3, 1), (2, 5), (1, 10), (1, 20)]"
    by (simp_all add: merge_def copy_ctor_def clear_def default_construct_def example_store_def
          example_queue_def attempt_Some CompByFst_def CompBySnd_def)
  have t: "fst (merge (Some 9) 2 0 example_store) = Inl Terminated"
    "fst (merge (Some 10) 2 0 example_store) = Inr (Some 0)"
    by (simp_all add: merge_def copy_ctor_def clear_def default_construct_def example_store_def
          example_queue_def attempt_Some CompByFst_def CompBySnd_def)
  have i: "fst (insert_pq (Some 4) 1 7 example_queue) = Inl ElementEx"
    by (simp add: insert_pq_def example_queue_def attempt_Some ms_find_def CompByFst_def Let_def)
  have c: "fst (changeValue ValueFirst (Some 4) 1 7 example_queue) = Inl ElementEx"
    by (simp add: changeValue_def make_to_find_def insert_pq_def example_queue_def attempt_Some
          minValue_def empty_pq_def size_pq_def isValid_def CompByFst_def Let_def)
  have n: "(2::nat) \<noteq> 0" by simp
  show ?thesis
    using merge_terminates_in_clear [where q = example_queue and h = example_store and this = 2
        and queue = 0 and f = "Some 4" and key = 1 and val = 7 and ord = ValueFirst and n = 4
        and m = 8, OF pq_inv_example_queue pq_inv_example_store pq_inv_example_store]
      i c k t n pq_inv_example_queue pq_inv_example_store
    by (auto simp: s split: prod.splits sum.splits)
qed

subsection \<open>C2\<close>

text \<open>
  Claim C2. The invariant \<open>pq_inv\<close> says that both indexes are present, have the same
  length, hold the same multiset of pairs, and are ordered by their comparators. Every
  mutating public operation keeps it, for every position of a throwing step and so on
  normal return as well as on an exception: the constructors, \<open>insert\<close>, \<open>deleteMin\<close>,
  \<open>deleteMax\<close>, \<open>changeValue\<close> (for both orders of its two copies), \<open>merge\<close> (for both
  queues), \<open>swap\<close> (for both queues) and the two assignments. It also holds of both queues
  at the moment \<open>merge\<close> ends the program inside \<open>clear\<close>, and of the queue of the private
  \<open>clear\<close> however it ends. The argument of a move assignment from another queue is left
  with no index at all, and its \<open>size\<close> is 0.
\<close>

theorem indexes_stay_synchronised:
  fixes q :: "('k::linorder, 'v::linorder) PriorityQueue"
  assumes "pq_inv q" and "pq_inv (h this)" and "pq_inv (h queue)"
  shows "pq_inv default_ctor \<and>
         (case default_construct f of
            Inl e \<Rightarrow> e = ElementEx
          | Inr (f', c) \<Rightarrow> pq_inv (c :: ('k, 'v) PriorityQueue)) \<and>
         (case copy_ctor f q of Inl e \<Rightarrow> e = ElementEx | Inr (f', c) \<Rightarrow> pq_inv c) \<and>
         pq_inv (snd (insert_pq f key val q)) \<and>
         pq_inv (snd (deleteMin f q)) \<and>
         pq_inv (snd (deleteMax f q)) \<and>
         pq_inv (snd (changeValue ord f key val q)) \<and>
         pq_inv (snd (merge f this queue h) this) \<and>
         pq_inv (snd (merge f this queue h) queue) \<and>
         pq_inv (snd (clear f q)) \<and>
         pq_inv (swap_pq this queue h this) \<and>
         pq_inv (swap_pq this queue h queue) \<and>
         pq_inv (snd (copy_assign f this queue h) this) \<and>
         pq_inv (move_assign this queue h this) \<and>
         (if this = queue then pq_inv (move_assign this queue h queue)
          else pairs_by_K (move_assign this queue h queue) = None \<and>
               pairs_by_V (move_assign this queue h queue) = None \<and>
               size_pq (move_assign this queue h queue) = 0) \<and>
         length (key_index q) = length (value_index q) \<and>
         mset (key_index q) = mset (value_index q)"
proof -
  have "length (key_index q) = length (value_index q) \<and> mset (key_index q) = mset (value_index q)"
    using assms(1) by (auto simp: pq_inv_def key_index_def value_index_def split: option.splits)
  moreover have "pq_inv (move_assign this queue h queue)" if "this = queue"
    using that pq_inv_move_assign [where h = h and queue = queue and this = this, OF assms(3)] by simp
  ultimately show ?thesis
    using pq_inv_default_ctor pq_inv_copy_ctor [OF assms(1), of f]
      pq_inv_default_construct [of f, where ?'k = 'k and ?'v = 'v] pq_inv_clear [OF assms(1), of f]
      pq_inv_insert_pq [OF assms(1), of f key val]
      pq_inv_deleteMin [OF assms(1), of f] pq_inv_deleteMax [OF assms(1), of f]
      pq_inv_changeValue [OF assms(1), of ord f key val]
      pq_inv_merge [where h = h and this = this and queue = queue and f = f, OF assms(2,3)]
      pq_inv_swap_pq [where h = h and this = this and queue = queue, OF assms(2,3)]
      pq_inv_copy_assign [where h = h and this = this and queue = queue and f = f, OF assms(2,3)] pq_inv_move_assign [where h = h and queue = queue and this = this, OF assms(3)]
      move_assign_source [of this queue h]
    by simp
qed

theorem indexes_stay_synchronised_witness:
  "pq_inv example_queue \<and> pq_inv (example_store 0) \<and> pq_inv (example_store 1) \<and>
   (pq_inv default_ctor \<and>
    (case default_construct (Some 5) of
       Inl e \<Rightarrow> e = ElementEx
     | Inr (f', c) \<Rightarrow> pq_inv (c :: (nat, nat) PriorityQueue)) \<and>
    (case copy_ctor (Some 5) example_queue of Inl e \<Rightarrow> e = ElementEx | Inr (f', c) \<Rightarrow> pq_inv c) \<and>
    pq_inv (snd (insert_pq (Some 5) 1 7 example_queue)) \<and>
    pq_inv (snd (deleteMin (Some 5) example_queue)) \<and>
    pq_inv (snd (deleteMax (Some 5) example_queue)) \<and>
    pq_inv (snd (changeValue ValueFirst (Some 5) 1 7 example_queue)) \<and>
    pq_inv (snd (merge (Some 5) (0::nat) (1::nat) example_store) (0::nat)) \<and>
    pq_inv (snd (merge (Some 5) (0::nat) (1::nat) example_store) (1::nat)) \<and>
    pq_inv (snd (clear (Some 5) example_queue)) \<and>
    pq_inv (swap_pq (0::nat) (1::nat) example_store (0::nat)) \<and>
    pq_inv (swap_pq (0::nat) (1::nat) example_store (1::nat)) \<and>
    pq_inv (snd (copy_assign (Some 5) (0::nat) (1::nat) example_store) (0::nat)) \<and>
    pq_inv (move_assign (0::nat) (1::nat) example_store (0::nat)) \<and>
    (if (0::nat) = (1::nat) then pq_inv (move_assign (0::nat) (1::nat) example_store (1::nat))
     else pairs_by_K (move_assign (0::nat) (1::nat) example_store (1::nat)) = None \<and>
          pairs_by_V (move_assign (0::nat) (1::nat) example_store (1::nat)) = None \<and>
          size_pq (move_assign (0::nat) (1::nat) example_store (1::nat)) = 0) \<and>
    length (key_index example_queue) = length (value_index example_queue) \<and>
    mset (key_index example_queue) = mset (value_index example_queue))"
  using indexes_stay_synchronised [where q = example_queue and h = example_store and this = 0
      and queue = 1 and f = "Some 5" and key = 1 and val = 7 and ord = ValueFirst,
      OF pq_inv_example_queue pq_inv_example_store pq_inv_example_store]
    pq_inv_example_queue pq_inv_example_store [of 0] pq_inv_example_store [of 1]
  by blast

subsection \<open>C3\<close>

text \<open>
  Claim C3. On an empty queue \<open>changeValue\<close> ends with \<open>PQEmptyEx\<close>, thrown by the
  \<open>minValue()\<close> call that builds the search pair, and not with \<open>PQNotFoundEx\<close>, in
  whichever order the two parts of the search pair are built. The queue is left as it was.
\<close>

theorem changeValue_on_empty_queue:
  "changeValue KeyFirst None key val default_ctor = (Inl PQEmptyEx, default_ctor) \<and>
   changeValue ValueFirst None key val default_ctor = (Inl PQEmptyEx, default_ctor) \<and>
   size_pq (default_ctor :: ('k::linorder, 'v::linorder) PriorityQueue) = 0"
  by (simp add: changeValue_def make_to_find_def minValue_def empty_pq_def size_pq_def isValid_def
        default_ctor_def)

subsection \<open>C4\<close>

text \<open>
  Claim C4. On a queue that satisfies the invariant, \<open>insert\<close> without a throwing step
  returns normally and has added one occurrence of the pair to both indexes, whatever
  the queue held before; every other entry is as before, the size is one more and the
  invariant holds again. After any sequence of inserts, deletions and merges out of a
  queue that starts empty, the size and the number of entries taken out add up to the
  number of inserts performed.
\<close>

theorem insert_adds_one_entry:
  assumes "pq_inv q" and "\<forall>x \<in> set xs. merge_target_ok x"
  shows "(case insert_pq None key val q of
            (r, q') \<Rightarrow>
               r = Inr None \<and> pq_inv q' \<and>
               mset (key_index q') = add_mset (key, val) (mset (key_index q)) \<and>
               mset (value_index q') = add_mset (key, val) (mset (value_index q)) \<and>
               size_pq q' = size_pq q + 1) \<and>
         (case run xs q of
            Inr q' \<Rightarrow> pq_inv q' \<and> size_pq q' + removals xs q = size_pq q + inserts xs
          | Inl e \<Rightarrow> False) \<and>
         (case run xs default_ctor of
            Inr q' \<Rightarrow> size_pq q' + removals xs default_ctor = inserts xs
          | Inl e \<Rightarrow> False)"
proof -
  from run_result [OF assms] obtain q' where
    "run xs q = Inr q'" "pq_inv q'" "size_pq q' + removals xs q = size_pq q + inserts xs"
    by blast
  moreover from run_result [OF pq_inv_default_ctor assms(2)] obtain q'' where
    "run xs default_ctor = Inr q''"
    "size_pq q'' + removals xs default_ctor = size_pq (default_ctor :: ('a, 'b) PriorityQueue) + inserts xs"
    by blast
  moreover have "size_pq (default_ctor :: ('a, 'b) PriorityQueue) = 0"
    by (simp add: size_pq_def default_ctor_def isValid_def)
  ultimately show ?thesis
    using insert_pq_None_index [OF assms(1), of key val] by simp
qed

theorem insert_adds_one_entry_witness:
  "pq_inv example_queue \<and> merge_target_ok (MergedInto (single_queue 4 10)) \<and>
   fst (insert_pq None 1 10 example_queue) = Inr None \<and>
   mset (key_index (snd (insert_pq None 1 10 example_queue))) = {#(1, 10), (1, 10), (1, 20), (2, 5)#} \<and>
   size_pq (snd (insert_pq None 1 10 example_queue)) = 4 \<and>
   inserts example_operations = 4 \<and>
   removals example_operations default_ctor = 3 \<and>
   (case run example_operations default_ctor of Inr q' \<Rightarrow> size_pq q' | Inl e \<Rightarrow> 0) = 1"
proof -
  have s: "size_pq example_queue = 3"
    by (simp add: size_pq_def isValid_def example_queue_def)
  have k: "key_index example_queue = [(1, 10), (1, 20), (2, 5)]"
    by (simp add: key_index_def example_queue_def)
  have i: "inserts example_operations = 4"
    by (simp add: example_operations_def)
  have r: "removals example_operations default_ctor = 3"
    by (simp add: example_operations_def default_ctor_def single_queue_def insert_pq_def
          deleteMin_def deleteMax_def merge_def copy_ctor_def clear_def default_construct_def
          empty_pq_def size_pq_def
          isValid_def ms_find_def ms_erase_def CompByFst_def CompBySnd_def Let_def)
  show ?thesis
    using insert_adds_one_entry [OF pq_inv_example_queue example_operations_ok, of 1 10]
      pq_inv_example_queue pq_inv_single_queue [of 4 10] i r
    by (simp add: s k split: prod.splits sum.splits)
qed

subsection \<open>C5\<close>

text \<open>
  Claim C5. A \<open>merge\<close> of two different queues that satisfy the invariant, without a
  throwing step, returns normally. Afterwards the argument queue is empty, both indexes
  of \<open>this\<close> hold the multiset union of the entries of the two queues, so that its size
  is the sum of the two sizes, both queues satisfy the invariant, and no other queue of
  the store has changed. A \<open>merge\<close> of a queue with itself returns at once and leaves the
  store as it is, whatever the state of the queue.
\<close>

theorem merge_moves_all_entries:
  assumes "this \<noteq> queue" and "pq_inv (h this)" and "pq_inv (h queue)"
  shows "(case merge None this queue h of
            (r, h') \<Rightarrow>
               r = Inr None \<and> empty_pq (h' queue) \<and> pq_inv (h' this) \<and> pq_inv (h' queue) \<and>
               mset (key_index (h' this)) = mset (key_index (h this)) + mset (key_index (h queue)) \<and>
               mset (value_index (h' this)) = mset (value_index (h this)) + mset (value_index (h queue)) \<and>
               size_pq (h' this) = size_pq (h this) + size_pq (h queue) \<and>
               (\<forall>a. a \<noteq> this \<longrightarrow> a \<noteq> queue \<longrightarrow> h' a = h a)) \<and>
         merge f a a h = (Inr f, h)"
proof -
  have "merge f a a h = (Inr f, h)" by (simp add: merge_def)
  then show ?thesis
    using merge_None [OF assms] merged_this(1,4) [OF assms] merged_this_index [OF assms]
    by (simp add: merged_queue merged_other empty_pq_cleared pq_inv_cleared)
qed

theorem merge_moves_all_entries_witness:
  "(2::nat) \<noteq> 0 \<and> pq_inv (example_store 2) \<and> pq_inv (example_store 0) \<and>
   fst (merge None 2 0 example_store) = Inr None \<and>
   empty_pq (snd (merge None 2 0 example_store) 0) \<and>
   mset (key_index (snd (merge None 2 0 example_store) 2)) = {#(3, 1), (1, 10), (1, 20), (2, 5)#} \<and>
   size_pq (snd (merge None 2 0 example_store) 2) = 4 \<and>
   minKey (snd (merge None 2 0 example_store) 2) = Inr 3 \<and>
   merge None 0 0 example_store = (Inr None, example_store)"
proof -
  have n: "(2::nat) \<noteq> 0" by simp
  have k: "key_index (example_store 2) = [(3, 1)]" "key_index (example_store 0) = [(1, 10), (1, 20), (2, 5)]"
    by (simp_all add: key_index_def example_store_def example_queue_def)
  have s: "size_pq (example_store 2) = 1" "size_pq (example_store 0) = 3"
    by (simp_all add: size_pq_def isValid_def example_store_def example_queue_def)
  have v: "pairs_by_V (snd (merge None 2 0 example_store) 2) = Some [(3, 1), (2, 5), (1, 10), (1, 20)]"
    by (simp add: merge_def copy_ctor_def clear_def default_construct_def default_ctor_def
          example_store_def example_queue_def CompByFst_def CompBySnd_def)
  have z: "size_pq (snd (merge None 2 0 example_store) 2) \<noteq> 0 \<Longrightarrow>
      minKey (snd (merge None 2 0 example_store) 2) = Inr 3"
    using v by (simp add: minKey_def empty_pq_def)
  show ?thesis
    using merge_moves_all_entries [where this = 2 and queue = 0 and h = example_store and f = None
        and a = 0, OF n pq_inv_example_store pq_inv_example_store]
      pq_inv_example_store z
    by (simp add: k s split: prod.splits)
qed

subsection \<open>C6\<close>

text \<open>
  Claim C6. Let the queue satisfy the invariant. On the empty queue \<open>deleteMin\<close> and
  \<open>deleteMax\<close> return normally and change nothing. On a non-empty queue, without a
  throwing step, \<open>deleteMin\<close> returns normally and has removed from both indexes one
  occurrence of the first element of the value index, an entry whose value is
  \<open>minValue()\<close>; \<open>deleteMax\<close> does the same with the last element, whose value is
  \<open>maxValue()\<close>. All other entries are as before, the size is one less and the
  invariant holds again. On a non-empty queue \<open>minValue()\<close> is at most \<open>maxValue()\<close>.
  After \<open>n\<close> calls of \<open>deleteMin\<close>, \<open>n\<close> less than the size, \<open>minValue()\<close> is at least
  what it was at the start, and after as many calls as the size the queue is empty.
\<close>

theorem delete_extremal_entry:
  assumes "pq_inv q"
  shows "(empty_pq q \<longrightarrow> deleteMin None q = (Inr None, q) \<and> deleteMax None q = (Inr None, q)) \<and>
         (\<not> empty_pq q \<longrightarrow>
            (case deleteMin None q of
               (r, q') \<Rightarrow>
                  r = Inr None \<and> pq_inv q' \<and>
                  minValue q = Inr (snd (hd (value_index q))) \<and>
                  hd (value_index q) \<in> set (key_index q) \<and>
                  mset (key_index q') = mset (key_index q) - {#hd (value_index q)#} \<and>
                  mset (value_index q') = mset (value_index q) - {#hd (value_index q)#} \<and>
                  Suc (size_pq q') = size_pq q) \<and>
            (case deleteMax None q of
               (r, q') \<Rightarrow>
                  r = Inr None \<and> pq_inv q' \<and>
                  maxValue q = Inr (snd (last (value_index q))) \<and>
                  last (value_index q) \<in> set (key_index q) \<and>
                  mset (key_index q') = mset (key_index q) - {#last (value_index q)#} \<and>
                  mset (value_index q') = mset (value_index q) - {#last (value_index q)#} \<and>
                  Suc (size_pq q') = size_pq q) \<and>
            (case (minValue q, maxValue q) of (Inr a, Inr b) \<Rightarrow> a \<le> b | _ \<Rightarrow> False)) \<and>
         (n < size_pq q \<longrightarrow>
            (case deleteMin_times n q of
               Inr q' \<Rightarrow>
                  pq_inv q' \<and> size_pq q' + n = size_pq q \<and>
                  (case (minValue q, minValue q') of (Inr a, Inr b) \<Rightarrow> a \<le> b | _ \<Rightarrow> False)
             | Inl e \<Rightarrow> False)) \<and>
         (case deleteMin_times (size_pq q) q of Inr q' \<Rightarrow> empty_pq q' | Inl e \<Rightarrow> False)"
proof -
  have empty: "deleteMin None q = (Inr None, q) \<and> deleteMax None q = (Inr None, q)" if "empty_pq q"
    using that by (simp add: delete_empty)
  have nonempty:
    "(case deleteMin None q of
        (r, q') \<Rightarrow>
           r = Inr None \<and> pq_inv q' \<and>
           minValue q = Inr (snd (hd (value_index q))) \<and>
           hd (value_index q) \<in> set (key_index q) \<and>
           mset (key_index q') = mset (key_index q) - {#hd (value_index q)#} \<and>
           mset (value_index q') = mset (value_index q) - {#hd (value_index q)#} \<and>
           Suc (size_pq q') = size_pq q) \<and>
     (case deleteMax None q of
        (r, q') \<Rightarrow>
           r = Inr None \<and> pq_inv q' \<and>
           maxValue q = Inr (snd (last (value_index q))) \<and>
           last (value_index q) \<in> set (key_index q) \<and>
           mset (key_index q') = mset (key_index q) - {#last (value_index q)#} \<and>
           mset (value_index q') = mset (value_index q) - {#last (value_index q)#} \<and>
           Suc (size_pq q') = size_pq q) \<and>
     (case (minValue q, maxValue q) of (Inr a, Inr b) \<Rightarrow> a \<le> b | _ \<Rightarrow> False)"
    if ne: "\<not> empty_pq q"
  proof -
    note acc = accessors_nonempty [OF assms ne]
    have "snd (hd (value_index q)) \<le> snd (last (value_index q))"
      using acc(5,7) by blast
    then show ?thesis
      using deleteMin_None [OF assms ne] deleteMax_None [OF assms ne]
        pq_inv_deletedMin [OF assms ne] pq_inv_deletedMax [OF assms ne]
        deletedMin_entries(1,2,4) [OF assms ne] deletedMax_entries [OF assms ne] acc(1,3,5,6)
      by simp
  qed
  have times: "case deleteMin_times n q of
               Inr q' \<Rightarrow>
                  pq_inv q' \<and> size_pq q' + n = size_pq q \<and>
                  (case (minValue q, minValue q') of (Inr a, Inr b) \<Rightarrow> a \<le> b | _ \<Rightarrow> False)
             | Inl e \<Rightarrow> False" if lt: "n < size_pq q"
  proof -
    from lt have le: "n \<le> size_pq q" by simp
    from deleteMin_times_result [OF assms le] lt obtain q' where
      q': "deleteMin_times n q = Inr q'" "pq_inv q'" "size_pq q' + n = size_pq q"
        "snd (hd (value_index q)) \<le> snd (hd (value_index q'))"
      by blast
    from lt have ne: "\<not> empty_pq q" by (simp add: empty_pq_def)
    from lt q'(3) have ne': "\<not> empty_pq q'" by (simp add: empty_pq_def)
    show ?thesis
      using q' accessors_nonempty(1) [OF assms ne] accessors_nonempty(1) [OF q'(2) ne'] by simp
  qed
  have all: "case deleteMin_times (size_pq q) q of Inr q' \<Rightarrow> empty_pq q' | Inl e \<Rightarrow> False"
  proof -
    from deleteMin_times_result [OF assms order_refl] obtain q' where
      "deleteMin_times (size_pq q) q = Inr q'" "size_pq q' + size_pq q = size_pq q"
      by blast
    then show ?thesis by (simp add: empty_pq_def)
  qed
  show ?thesis using empty nonempty times all by blast
qed

theorem delete_extremal_entry_witness:
  "pq_inv example_queue \<and> \<not> empty_pq example_queue \<and> 2 < size_pq example_queue \<and>
   fst (deleteMin None example_queue) = Inr None \<and>
   mset (key_index (snd (deleteMin None example_queue))) = {#(1, 10), (1, 20)#} \<and>
   minValue (snd (deleteMin None example_queue)) = Inr 10 \<and>
   mset (key_index (snd (deleteMax None example_queue))) = {#(1, 10), (2, 5)#} \<and>
   (case deleteMin_times 2 example_queue of Inr q' \<Rightarrow> minValue q' | Inl e \<Rightarrow> Inl e) = Inr 20 \<and>
   deleteMin None default_ctor = (Inr None, default_ctor :: (nat, nat) PriorityQueue)"
proof -
  have s: "size_pq example_queue = 3"
    by (simp add: size_pq_def isValid_def example_queue_def)
  have k: "key_index example_queue = [(1, 10), (1, 20), (2, 5)]"
    by (simp add: key_index_def example_queue_def)
  have v: "value_index example_queue = [(2, 5), (1, 10), (1, 20)]"
    by (simp add: value_index_def example_queue_def)
  have m: "minValue (snd (deleteMin None example_queue)) = Inr 10"
    by (simp add: deleteMin_def minValue_def empty_pq_def size_pq_def isValid_def example_queue_def
          ms_find_def ms_erase_def CompByFst_def Let_def)
  have t: "(case deleteMin_times 2 example_queue of Inr q' \<Rightarrow> minValue q' | Inl e \<Rightarrow> Inl e) = Inr 20"
    by (simp add: numeral_2_eq_2 deleteMin_def minValue_def empty_pq_def size_pq_def isValid_def
          example_queue_def ms_find_def ms_erase_def CompByFst_def Let_def)
  have d: "empty_pq (default_ctor :: (nat, nat) PriorityQueue)"
    by (simp add: empty_pq_def size_pq_def isValid_def default_ctor_def)
  show ?thesis
    using delete_extremal_entry [OF pq_inv_example_queue, of 2]
      delete_extremal_entry [OF pq_inv_default_ctor, where 'a = nat and 'b = nat, of 0]
      pq_inv_example_queue example_queue_not_empty m t d
    by (simp add: s k v split: prod.splits)
qed

subsection \<open>C7\<close>

text \<open>
  Claim C7. Each of \<open>minValue\<close>, \<open>maxValue\<close>, \<open>minKey\<close> and \<open>maxKey\<close> ends with
  \<open>PQEmptyEx\<close> exactly when the queue is empty. On a non-empty queue that satisfies the
  invariant they return the value and the key of the first and of the last element of
  the value index; these two elements are entries of the queue, and every entry has a
  value between the two returned values. The accessors are \<open>const\<close>: they are functions
  of the queue and have no successor state.
\<close>

theorem accessors_first_and_last:
  "(minValue q = Inl PQEmptyEx) = empty_pq q \<and>
   (maxValue q = Inl PQEmptyEx) = empty_pq q \<and>
   (minKey q = Inl PQEmptyEx) = empty_pq q \<and>
   (maxKey q = Inl PQEmptyEx) = empty_pq q \<and>
   (pq_inv q \<longrightarrow> \<not> empty_pq q \<longrightarrow>
      minValue q = Inr (snd (hd (value_index q))) \<and>
      minKey q = Inr (fst (hd (value_index q))) \<and>
      maxValue q = Inr (snd (last (value_index q))) \<and>
      maxKey q = Inr (fst (last (value_index q))) \<and>
      hd (value_index q) \<in> set (key_index q) \<and>
      last (value_index q) \<in> set (key_index q) \<and>
      (\<forall>p \<in> set (key_index q).
          snd (hd (value_index q)) \<le> snd p \<and> snd p \<le> snd (last (value_index q))))"
  using accessor_throws_iff_empty [of q] accessors_nonempty [of q] by blast

theorem accessors_first_and_last_witness:
  "pq_inv example_queue \<and> \<not> empty_pq example_queue \<and>
   minValue example_queue = Inr 5 \<and> minKey example_queue = Inr 2 \<and>
   maxValue example_queue = Inr 20 \<and> maxKey example_queue = Inr 1 \<and>
   minValue (default_ctor :: (nat, nat) PriorityQueue) = Inl PQEmptyEx \<and>
   empty_pq (default_ctor :: (nat, nat) PriorityQueue)"
proof -
  have v: "value_index example_queue = [(2, 5), (1, 10), (1, 20)]"
    by (simp add: value_index_def example_queue_def)
  have e: "empty_pq (default_ctor :: (nat, nat) PriorityQueue)"
    by (simp add: empty_pq_def size_pq_def isValid_def default_ctor_def)
  show ?thesis
    using accessors_first_and_last [of example_queue]
      accessors_first_and_last [of "default_ctor :: (nat, nat) PriorityQueue"]
      pq_inv_example_queue example_queue_not_empty e
    by (simp add: v)
qed

subsection \<open>C8\<close>

text \<open>
  Claim C8. Without a throwing step \<open>operator==\<close> returns, for any two queues, whether
  they have the same size and at every position of the key index the same key and the
  same value; two queues of size 0 compare equal. Two queues built from the empty queue
  by inserting the same multiset of pairs, in whatever order, compare equal.
\<close>

theorem operator_eq_compares_key_indexes:
  "operator_eq None a b =
     Inr (size_pq a = size_pq b \<and>
          (\<forall>i < size_pq a. fst (key_index a ! i) = fst (key_index b ! i) \<and>
                           snd (key_index a ! i) = snd (key_index b ! i))) \<and>
   (mset ps = mset ps' \<longrightarrow>
      (case (insert_all ps default_ctor, insert_all ps' default_ctor) of
         (Inr qa, Inr qb) \<Rightarrow> operator_eq None qa qb = Inr True
       | _ \<Rightarrow> False))"
proof -
  have "case (insert_all ps default_ctor, insert_all ps' default_ctor) of
         (Inr qa, Inr qb) \<Rightarrow> operator_eq None qa qb = Inr True
       | _ \<Rightarrow> False" if m: "mset ps = mset ps'"
  proof -
    from insert_all_result [OF pq_inv_default_ctor, of ps] obtain qa where
      qa: "insert_all ps default_ctor = Inr qa" "pq_inv qa"
        "mset (key_index qa) = mset (key_index default_ctor) + mset ps"
      by blast
    from insert_all_result [OF pq_inv_default_ctor, of ps'] obtain qb where
      qb: "insert_all ps' default_ctor = Inr qb" "pq_inv qb"
        "mset (key_index qb) = mset (key_index default_ctor) + mset ps'"
      by blast
    have "key_index qa = key_index qb"
      by (rule same_entries_same_key_index [OF qa(2) qb(2)]) (simp add: qa(3) qb(3) m)
    from operator_eq_same_key_index [OF qa(2) qb(2) this] show ?thesis
      by (simp add: qa(1) qb(1))
  qed
  then show ?thesis using operator_eq_None [of a b] by blast
qed

theorem operator_eq_compares_key_indexes_witness:
  "mset [(4, 10), (2, 5), (4, 20)] = mset [(4, 20), (4, 10), (2::nat, 5::nat)] \<and>
   (case insert_all [(4, 10), (2, 5), (4, 20)] default_ctor of Inr qa \<Rightarrow> pairs_by_K qa | Inl e \<Rightarrow> None) =
     Some [(2::nat, 5::nat), (4, 10), (4, 20)] \<and>
   (case insert_all [(4, 20), (4, 10), (2, 5)] default_ctor of Inr qb \<Rightarrow> pairs_by_K qb | Inl e \<Rightarrow> None) =
     Some [(2::nat, 5::nat), (4, 10), (4, 20)] \<and>
   (case (insert_all [(4, 10), (2, 5), (4, 20)] default_ctor,
          insert_all [(4, 20), (4, 10), (2::nat, 5::nat)] default_ctor) of
      (Inr qa, Inr qb) \<Rightarrow> operator_eq None qa qb = Inr True
    | _ \<Rightarrow> False) \<and>
   operator_eq None example_queue (single_queue 4 10) = Inr False"
proof -
  have m: "mset [(4, 10), (2, 5), (4, 20)] = mset [(4, 20), (4, 10), (2::nat, 5::nat)]"
    by simp
  have a: "(case insert_all [(4, 10), (2, 5), (4, 20)] default_ctor of Inr qa \<Rightarrow> pairs_by_K qa | Inl e \<Rightarrow> None) =
     Some [(2::nat, 5::nat), (4, 10), (4, 20)]"
    by (simp add: insert_pq_def default_ctor_def ms_find_def CompByFst_def CompBySnd_def Let_def)
  have b: "(case insert_all [(4, 20), (4, 10), (2, 5)] default_ctor of Inr qb \<Rightarrow> pairs_by_K qb | Inl e \<Rightarrow> None) =
     Some [(2::nat, 5::nat), (4, 10), (4, 20)]"
    by (simp add: insert_pq_def default_ctor_def ms_find_def CompByFst_def CompBySnd_def Let_def)
  have s: "size_pq example_queue = 3" "size_pq (single_queue 4 10) = 1"
    by (simp_all add: size_pq_def isValid_def example_queue_def single_queue_def)
  have e: "operator_eq None example_queue (single_queue 4 10) = Inr False"
    using operator_eq_compares_key_indexes [where a = example_queue and b = "single_queue 4 10"
        and ps = "[] :: (nat \<times> nat) list" and ps' = "[]"]
    by (simp add: s)
  show ?thesis
    using operator_eq_compares_key_indexes [where ps = "[(4, 10), (2, 5), (4, 20)]"
        and ps' = "[(4, 20), (4, 10), (2::nat, 5::nat)]"] m a b e
    by blast
qed

subsection \<open>C9\<close>

text \<open>
  Claim C9 fails as stated. \<open>changeValue\<close> removes the entry of the key with the least
  value, which is the pair just inserted only when no older entry of the key has a value
  as small. On the queue holding \<open>(1, 5)\<close>, \<open>insert(1, 10)\<close> and then
  \<open>changeValue(1, 3)\<close> leave \<open>(1, 3)\<close> and \<open>(1, 10)\<close>: the inserted pair is still there.
  Three more runs show the other ways: with equal values the pair is present afterwards
  (\<open>insert(1, 5)\<close>, \<open>changeValue(1, 5)\<close> on the empty queue); a pair of the key and the
  second value that was there before is there twice afterwards (\<open>insert(1, 5)\<close>,
  \<open>changeValue(1, 7)\<close> on the queue holding \<open>(1, 7)\<close>); and a smaller key with the same
  least value stays \<open>minKey\<close> (\<open>insert(1, 10)\<close>, \<open>changeValue(1, 3)\<close> on the queue holding
  \<open>(0, 3)\<close>).
\<close>

theorem insert_then_changeValue_counterexample:
  "pq_inv (single_queue 1 5) \<and>
   fst (insert_pq None 1 10 (single_queue 1 5)) = Inr None \<and>
   fst (changeValue ValueFirst None 1 3 (snd (insert_pq None 1 10 (single_queue 1 5)))) = Inr None \<and>
   pairs_by_K (snd (changeValue ValueFirst None 1 3 (snd (insert_pq None 1 10 (single_queue 1 5))))) =
     Some [(1, 3), (1, 10)] \<and>
   pairs_by_V (snd (changeValue ValueFirst None 1 3 (snd (insert_pq None 1 10 (single_queue 1 5))))) =
     Some [(1, 3), (1, 10)] \<and>
   pairs_by_K (snd (changeValue KeyFirst None 1 3 (snd (insert_pq None 1 10 (single_queue 1 5))))) =
     Some [(1, 3), (1, 10)] \<and>
   pairs_by_K (snd (changeValue ValueFirst None (1::nat) (5::nat) (snd (insert_pq None 1 5 default_ctor)))) =
     Some [(1, 5)] \<and>
   pairs_by_K (snd (changeValue ValueFirst None 1 7 (snd (insert_pq None 1 5 (single_queue 1 7))))) =
     Some [(1, 7), (1, 7)] \<and>
   minValue (snd (changeValue ValueFirst None 1 3 (snd (insert_pq None 1 10 (single_queue 0 3))))) = Inr 3 \<and>
   minKey (snd (changeValue ValueFirst None 1 3 (snd (insert_pq None 1 10 (single_queue 0 3))))) = Inr 0"
  by (simp add: pq_inv_def ordered_def single_queue_def default_ctor_def insert_pq_def changeValue_def
        make_to_find_def minValue_def minKey_def empty_pq_def size_pq_def isValid_def ms_find_def ms_erase_def
        CompByFst_def CompBySnd_def Let_def)

text \<open>
  Claim C9 as amended. Let the queue satisfy the invariant, let every entry of the key
  already in it have a value greater than the inserted one, let the two values differ and
  let the queue hold no pair of the key and the second value. Then \<open>insert\<close> followed by
  \<open>changeValue\<close> returns normally and leaves the entries of the original queue and one
  pair of the key and the second value: the inserted pair is gone, the new pair is there
  once, and \<open>minKey\<close> is the key when the second value is less than every value of the
  original queue.
\<close>

theorem insert_then_changeValue:
  assumes "pq_inv q"
    and "\<forall>p \<in> set (key_index q). fst p = key \<longrightarrow> val < snd p"
    and "val \<noteq> val2"
    and "(key, val2) \<notin> set (key_index q)"
  shows "case insert_pq None key val q of
           (r1, q1) \<Rightarrow>
              r1 = Inr None \<and>
              (case changeValue ord None key val2 q1 of
                 (r2, q2) \<Rightarrow>
                    r2 = Inr None \<and> pq_inv q2 \<and>
                    mset (key_index q2) = add_mset (key, val2) (mset (key_index q)) \<and>
                    (key, val) \<notin> set (key_index q2) \<and>
                    count (mset (key_index q2)) (key, val2) = 1 \<and>
                    ((\<forall>p \<in> set (key_index q). val2 < snd p) \<longrightarrow> minKey q2 = Inr key))"
proof -
  let ?q1 = "inserted key val q"
  let ?q2 = "changed key val2 ?q1"
  note ins = insert_pq_None_index [OF assms(1), of key val]
  have set1: "set (key_index ?q1) = insert (key, val) (set (key_index q))"
    using ins(3) by (metis set_mset_add_mset_insert set_mset_mset)
  then have present: "key \<in> fst ` set (key_index ?q1)" by force
  have "least_value_of key (key_index ?q1) = val"
    unfolding least_value_of_def
  proof (rule Min_eqI)
    show "finite (set (map snd (filter (\<lambda>p. fst p = key) (key_index ?q1))))" by simp
    show "val \<in> set (map snd (filter (\<lambda>p. fst p = key) (key_index ?q1)))"
      using set1 by force
    fix y
    assume "y \<in> set (map snd (filter (\<lambda>p. fst p = key) (key_index ?q1)))"
    then obtain p where p: "p \<in> set (key_index ?q1)" "fst p = key" "y = snd p" by auto
    from p(1) set1 have "p = (key, val) \<or> p \<in> set (key_index q)" by simp
    then show "val \<le> y"
    proof
      assume "p = (key, val)"
      then show ?thesis using p(3) by simp
    next
      assume "p \<in> set (key_index q)"
      then have "val < snd p" using assms(2) p(2) by blast
      then show ?thesis using p(3) by simp
    qed
  qed
  then have k2: "mset (key_index ?q2) = add_mset (key, val2) (mset (key_index q))"
    using changed_entries(1) [OF ins(2) present, of val2] ins(3) by simp
  have notin: "(key, val) \<notin> set (key_index q)" using assms(2) by auto
  have "set (key_index ?q2) = insert (key, val2) (set (key_index q))"
    using k2 by (metis set_mset_add_mset_insert set_mset_mset)
  then have c0: "(key, val) \<notin> set (key_index ?q2)"
    using notin assms(3) by simp
  have c1: "count (mset (key_index ?q2)) (key, val2) = 1"
    using assms(4) by (simp add: k2 count_mset_0_iff)
  have inv2: "pq_inv ?q2" by (rule pq_inv_changed_index [OF ins(2) present])
  have mk: "minKey ?q2 = Inr key" if lt: "\<forall>p \<in> set (key_index q). val2 < snd p"
  proof (rule minKey_least [OF inv2, of key val2])
    have sv: "set (value_index ?q2) = insert (key, val2) (set (key_index q))"
      using k2 pq_inv_indexes(5) [OF inv2]
      by (metis set_mset_add_mset_insert set_mset_mset)
    then show "(key, val2) \<in> set (value_index ?q2)" by simp
    show "\<forall>p \<in> set (value_index ?q2). p \<noteq> (key, val2) \<longrightarrow> val2 < snd p"
      using sv lt by auto
  qed
  have "changeValue ord None key val2 ?q1 = (Inr None, ?q2)"
    by (rule changeValue_None_present [OF ins(2) present])
  then show ?thesis using ins(1) inv2 k2 c0 c1 mk by (simp del: count_mset_0_iff)
qed

theorem insert_then_changeValue_witness:
  "pq_inv example_queue \<and> (8::nat) \<noteq> 2 \<and> (3, 2) \<notin> set (key_index example_queue) \<and>
   fst (insert_pq None 3 8 example_queue) = Inr None \<and>
   fst (changeValue ValueFirst None 3 2 (snd (insert_pq None 3 8 example_queue))) = Inr None \<and>
   mset (key_index (snd (changeValue ValueFirst None 3 2 (snd (insert_pq None 3 8 example_queue))))) =
     {#(3, 2), (1, 10), (1, 20), (2, 5)#} \<and>
   minKey (snd (changeValue ValueFirst None 3 2 (snd (insert_pq None 3 8 example_queue)))) = Inr 3"
proof -
  have k: "key_index example_queue = [(1, 10), (1, 20), (2, 5)]"
    by (simp add: key_index_def example_queue_def)
  have h2: "\<forall>p \<in> set (key_index example_queue). fst p = 3 \<longrightarrow> 8 < snd p"
    by (simp add: k)
  have h3: "(8::nat) \<noteq> 2" by simp
  have h4: "(3, 2) \<notin> set (key_index example_queue)" by (simp add: k)
  have h5: "\<forall>p \<in> set (key_index example_queue). 2 < snd p" by (simp add: k)
  show ?thesis
    using insert_then_changeValue [OF pq_inv_example_queue h2 h3 h4, where ord = ValueFirst]
      pq_inv_example_queue h2 h4 h5
    by (simp add: k split: prod.splits)
qed

subsection \<open>C10\<close>

text \<open>
  Claim C10. On a queue that holds an entry with the key, \<open>changeValue\<close> without a
  throwing step returns normally; in both indexes it has removed one pair of the key and
  the least value stored under that key, and added one pair of the key and the new value.
  Every other entry, the other entries of the key among them, is as before.
\<close>

theorem changeValue_replaces_least:
  assumes "pq_inv q" and "key \<in> fst ` set (key_index q)"
  shows "case changeValue ord None key val q of
           (r, q') \<Rightarrow>
              r = Inr None \<and> pq_inv q' \<and>
              (key, least_value_of key (key_index q)) \<in> set (key_index q) \<and>
              mset (key_index q') =
                add_mset (key, val) (mset (key_index q) - {#(key, least_value_of key (key_index q))#}) \<and>
              mset (value_index q') =
                add_mset (key, val) (mset (value_index q) - {#(key, least_value_of key (key_index q))#})"
  using changeValue_None_present [OF assms, of ord val] pq_inv_changed_index [OF assms, of val]
    changed_entries [OF assms, of val] removed_pair_is_least(2) [OF assms]
  by simp

theorem changeValue_replaces_least_witness:
  "pq_inv example_queue \<and> 1 \<in> fst ` set (key_index example_queue) \<and>
   least_value_of 1 (key_index example_queue) = 10 \<and>
   fst (changeValue ValueFirst None 1 7 example_queue) = Inr None \<and>
   mset (key_index (snd (changeValue ValueFirst None 1 7 example_queue))) = {#(1, 7), (1, 20), (2, 5)#}"
proof -
  have l: "least_value_of 1 (key_index example_queue) = 10"
    by (simp add: least_value_of_def key_index_def example_queue_def)
  have k: "key_index example_queue = [(1, 10), (1, 20), (2, 5)]"
    by (simp add: key_index_def example_queue_def)
  show ?thesis
    using changeValue_replaces_least [OF pq_inv_example_queue example_has_key_1,
        where ord = ValueFirst and val = 7]
      pq_inv_example_queue example_has_key_1 l
    by (simp add: k split: prod.splits)
qed


end
